theory Spec2Isabelle
  imports Main "HOL-Library.Multiset"
begin

section \<open>Errors and machine arithmetic\<close>

text \<open>
  Every way an operation of the sorter or of the parallel producer can fail is a value of
  \<open>error\<close>; a fallible operation returns \<open>error + 'a\<close> with \<open>Inl\<close> for the failure.
  \<^item> \<open>AssertionFailed msg\<close>: a \<^verbatim>\<open>tp_assert(cond, msg)\<close> whose condition is false;
  \<^item> \<open>DivisionByZero\<close>: \<^verbatim>\<open>%\<close> or \<^verbatim>\<open>/\<close> by a zero fanout;
  \<^item> \<open>IndexOutOfRange\<close>: an array access outside the array;
  \<^item> \<open>SeekOutOfRange\<close>, \<open>EndOfStream\<close>: the stream failures of the stream layer;
  \<^item> \<open>RuntimeError msg\<close>: a thrown \<^verbatim>\<open>std::runtime_error(msg)\<close> or \<^verbatim>\<open>tpie::exception(msg)\<close>.
\<close>

datatype error =
    AssertionFailed string
  | DivisionByZero
  | IndexOutOfRange
  | SeekOutOfRange
  | EndOfStream
  | RuntimeError string

definition bind_err :: "error + 'a \<Rightarrow> ('a \<Rightarrow> error + 'b) \<Rightarrow> error + 'b" where
  "bind_err r f = (case r of Inl e \<Rightarrow> Inl e | Inr x \<Rightarrow> f x)"

text \<open>
  Modelled from the spec: the macro \<^verbatim>\<open>tp_assert\<close> is not part of the sources at hand. The
  specification asks that misuse is detected and reported, so a failed assertion is the
  error value carrying the assertion's message, and execution does not go on.
\<close>

definition tp_assert :: "bool \<Rightarrow> string \<Rightarrow> error + unit" where
  "tp_assert c msg = (if c then Inr () else Inl (AssertionFailed msg))"

text \<open>
  \<^verbatim>\<open>size_t\<close> is taken to be 64 bits wide. Sizes are natural numbers; the products and
  differences that can leave the range of \<^verbatim>\<open>size_t\<close> are reduced modulo \<open>2 ^ 64\<close>
  explicitly. Counters that are only ever incremented by one per buffered item, per run or
  per merge level, and indices into the array of temp files, stay plain naturals.
\<close>

definition size_t_range :: nat where
  "size_t_range = 2 ^ 64"

definition size_t_mul :: "nat \<Rightarrow> nat \<Rightarrow> nat" where
  "size_t_mul a b = (a * b) mod size_t_range"

definition size_t_sub :: "nat \<Rightarrow> nat \<Rightarrow> nat" where
  "size_t_sub a b = (a mod size_t_range + size_t_range - b mod size_t_range) mod size_t_range"

section \<open>Sort parameters\<close>

record sort_parameters =
  memoryPhase2 :: nat
  memoryPhase3 :: nat
  memoryPhase4 :: nat
  runLength :: nat
  internalReportThreshold :: nat
  fanout :: nat
  finalFanout :: nat

text \<open>
  The memory figures that \<^verbatim>\<open>calculate_parameters\<close> reads from classes outside the sources
  at hand are parameters of the model: \<^verbatim>\<open>merger<T, pred_t>::memory_usage(fanout)\<close>,
  \<^verbatim>\<open>file_stream<T>::memory_usage()\<close>, \<^verbatim>\<open>sizeof(temp_file)\<close> and \<^verbatim>\<open>sizeof(T)\<close>.
\<close>

record memory_model =
  merger_memory_usage :: "nat \<Rightarrow> nat"
  stream_memory_usage :: nat
  sizeof_temp_file :: nat
  sizeof_T :: nat

definition fanout_memory_usage :: "memory_model \<Rightarrow> nat \<Rightarrow> nat" where
  "fanout_memory_usage mm f =
     merger_memory_usage mm f + stream_memory_usage mm + 2 * sizeof_temp_file mm"

text \<open>
  The binary search of \<^verbatim>\<open>calculate_fanout\<close>, as the loop on \<open>(fanout_lo, fanout_hi)\<close>.
  Both variables stay between 2 and 251, so \<^verbatim>\<open>fanout_hi - 1\<close> and the midpoint cannot wrap.
\<close>

function calculate_fanout_loop :: "memory_model \<Rightarrow> nat \<Rightarrow> nat \<Rightarrow> nat \<Rightarrow> nat" where
  "calculate_fanout_loop mm availableMemory fanout_lo fanout_hi =
     (if fanout_lo < fanout_hi - 1 then
        (let mid = fanout_lo + (fanout_hi - fanout_lo) div 2 in
         if fanout_memory_usage mm mid < availableMemory
         then calculate_fanout_loop mm availableMemory mid fanout_hi
         else calculate_fanout_loop mm availableMemory fanout_lo mid)
      else fanout_lo)"
  by pat_completeness auto
termination
  by (relation "measure (\<lambda>(mm, m, lo, hi). hi - lo)") auto

declare calculate_fanout_loop.simps [simp del]

definition calculate_fanout :: "memory_model \<Rightarrow> nat \<Rightarrow> nat" where
  "calculate_fanout mm availableMemory = calculate_fanout_loop mm availableMemory 2 251"

definition calculate_parameters :: "memory_model \<Rightarrow> nat \<Rightarrow> nat \<Rightarrow> nat \<Rightarrow> sort_parameters" where
  "calculate_parameters mm m2 m3 m4 =
     (let fanout' = calculate_fanout mm m3;
          m3' = (if fanout_memory_usage mm fanout' > m3 then fanout_memory_usage mm fanout' else m3);
          finalFanout0 = calculate_fanout mm m4;
          finalFanout' = (if finalFanout0 > fanout' then fanout' else finalFanout0);
          m4' = (if fanout_memory_usage mm finalFanout' > m4
                 then fanout_memory_usage mm finalFanout' else m4);
          streamMemory = stream_memory_usage mm;
          tempFileMemory = 2 * fanout' * sizeof_temp_file mm;
          min_m2 = sizeof_T mm + streamMemory + tempFileMemory;
          m2' = (if m2 < min_m2 then min_m2 else m2);
          runLength' = size_t_sub (size_t_sub m2' streamMemory) tempFileMemory div sizeof_T mm;
          threshold0 = size_t_sub (min m2' (min m3' m4')) tempFileMemory div sizeof_T mm;
          threshold' = (if threshold0 > runLength' then runLength' else threshold0)
      in \<lparr> memoryPhase2 = m2', memoryPhase3 = m3', memoryPhase4 = m4',
           runLength = runLength', internalReportThreshold = threshold',
           fanout = fanout', finalFanout = finalFanout' \<rparr>)"

section \<open>Run files\<close>

text \<open>
  \<^verbatim>\<open>m_runFiles\<close> is an array of temp files; the model keeps the item sequence stored in
  each. \<^verbatim>\<open>run_file_index\<close> takes \<^verbatim>\<open>runNumber % p.fanout\<close>, which has no value for a zero
  fanout.
\<close>

definition run_file_index :: "sort_parameters \<Rightarrow> nat \<Rightarrow> nat \<Rightarrow> error + nat" where
  "run_file_index prm mergeLevel runNumber =
     (if fanout prm = 0 then Inl DivisionByZero
      else Inr ((mergeLevel mod 2) * fanout prm + (runNumber mod fanout prm)))"

function calculate_run_length_loop :: "nat \<Rightarrow> nat \<Rightarrow> nat \<Rightarrow> nat \<Rightarrow> nat" where
  "calculate_run_length_loop fanout' mergeLevel i runLength' =
     (if i < mergeLevel
      then calculate_run_length_loop fanout' mergeLevel (i + 1) (size_t_mul runLength' fanout')
      else runLength')"
  by pat_completeness auto
termination
  by (relation "measure (\<lambda>(f, mergeLevel, i, r). mergeLevel - i)") auto

declare calculate_run_length_loop.simps [simp del]

definition calculate_run_length :: "nat \<Rightarrow> nat \<Rightarrow> nat \<Rightarrow> nat" where
  "calculate_run_length initialRunLength fanout' mergeLevel =
     calculate_run_length_loop fanout' mergeLevel 0 initialRunLength"

text \<open>
  Modelled from the spec: \<^verbatim>\<open>file_stream\<close> and \<^verbatim>\<open>temp_file\<close> are not part of the sources at
  hand. Following the stream layer of the specification, a stream is a cursor \<open>fs_pos\<close> into
  the item sequence of the temp file \<open>fs_file\<close>; seeking outside \<open>[0, len]\<close> fails; writing
  at \<open>pos = len\<close> appends one item and writing below \<open>len\<close> overwrites; freeing a temp file
  leaves it empty.
\<close>

record file_stream =
  fs_file :: nat
  fs_pos :: nat

definition fs_open :: "'a list list \<Rightarrow> nat \<Rightarrow> error + file_stream" where
  "fs_open files idx =
     (if idx < length files then Inr \<lparr> fs_file = idx, fs_pos = 0 \<rparr> else Inl IndexOutOfRange)"

definition fs_seek :: "'a list list \<Rightarrow> file_stream \<Rightarrow> nat \<Rightarrow> error + file_stream" where
  "fs_seek files fs offset =
     (if offset \<le> length (files ! fs_file fs) then Inr (fs\<lparr> fs_pos := offset \<rparr>)
      else Inl SeekOutOfRange)"

definition fs_seek_end :: "'a list list \<Rightarrow> file_stream \<Rightarrow> file_stream" where
  "fs_seek_end files fs = fs\<lparr> fs_pos := length (files ! fs_file fs) \<rparr>"

definition fs_write :: "'a list list \<times> file_stream \<Rightarrow> 'a \<Rightarrow> 'a list list \<times> file_stream" where
  "fs_write st x =
     (case st of (files, fs) \<Rightarrow>
        let content = files ! fs_file fs;
            content' = (if fs_pos fs = length content then content @ [x]
                        else content[fs_pos fs := x])
        in (files[fs_file fs := content'], fs\<lparr> fs_pos := fs_pos fs + 1 \<rparr>))"

definition temp_file_free :: "'a list list \<Rightarrow> nat \<Rightarrow> 'a list list" where
  "temp_file_free files idx = files[idx := []]"

definition open_run_file_write ::
  "sort_parameters \<Rightarrow> 'a list list \<Rightarrow> nat \<Rightarrow> nat \<Rightarrow> error + ('a list list \<times> file_stream)" where
  "open_run_file_write prm files mergeLevel runNumber =
     bind_err (run_file_index prm mergeLevel runNumber) (\<lambda>idx.
       if idx < length files then
         (let files' = (if runNumber < fanout prm then temp_file_free files idx else files) in
          bind_err (fs_open files' idx) (\<lambda>fs. Inr (files', fs_seek_end files' fs)))
       else Inl IndexOutOfRange)"

definition open_run_file_read ::
  "sort_parameters \<Rightarrow> 'a list list \<Rightarrow> nat \<Rightarrow> nat \<Rightarrow> error + file_stream" where
  "open_run_file_read prm files mergeLevel runNumber =
     bind_err (run_file_index prm mergeLevel runNumber) (\<lambda>idx.
       bind_err (fs_open files idx) (\<lambda>fs.
         fs_seek files fs
           (size_t_mul (calculate_run_length (runLength prm) (fanout prm) mergeLevel)
                       (runNumber div fanout prm))))"

section \<open>The merger\<close>

text \<open>
  Modelled from the spec: the class \<^verbatim>\<open>merger\<close> is not part of the sources at hand. Following
  the specification, a merger is set up over input streams, each positioned at the first item
  of its run, and hands out at most \<open>runLength\<close> items of each stream (fewer when the file
  ends before); a pull returns the least item at the head of the inputs, the lowest input
  index breaking ties, and advances that input. The model keeps, for each input, the items
  not yet handed out.
\<close>

type_synonym 'a merger = "'a list list"

definition merger_reset :: "'a list list \<Rightarrow> file_stream list \<Rightarrow> nat \<Rightarrow> 'a merger" where
  "merger_reset files ins runLength' =
     map (\<lambda>fs. take runLength' (drop (fs_pos fs) (files ! fs_file fs))) ins"

definition merger_can_pull :: "'a merger \<Rightarrow> bool" where
  "merger_can_pull m = list_ex (\<lambda>r. r \<noteq> []) m"

definition merger_heads :: "'a merger \<Rightarrow> ('a \<times> nat) list" where
  "merger_heads m = map (\<lambda>i. (hd (m ! i), i)) (filter (\<lambda>i. m ! i \<noteq> []) [0..<length m])"

definition merger_pull :: "'a::linorder merger \<Rightarrow> error + ('a \<times> 'a merger)" where
  "merger_pull m =
     (if merger_can_pull m then
        (case arg_min_list fst (merger_heads m) of (el, i) \<Rightarrow>
           let m' = m[i := tl (m ! i)]
           in Inr (el, if merger_can_pull m' then m' else []))
      else Inl (AssertionFailed ''pull() while !can_pull()''))"

section \<open>The merge sorter\<close>

record 'a merge_sorter =
  p :: sort_parameters
  m_parametersSet :: bool
  m_merger :: "'a merger"
  m_runFiles :: "'a list list"
  m_finishedRuns :: nat
  m_currentRunItems :: "'a list"
  m_currentRunItemCount :: nat
  m_reportInternal :: bool
  m_itemsPulled :: nat
  pull_prepared :: bool

text \<open>
  The constructor initialises \<^verbatim>\<open>m_parametersSet\<close>, \<^verbatim>\<open>m_merger\<close>, \<^verbatim>\<open>m_runFiles\<close> and
  \<^verbatim>\<open>pull_prepared\<close>, and the run buffer starts with size 0. The other fields are left
  uninitialised by the source; the model takes their indeterminate values from its argument.
\<close>

definition new_merge_sorter :: "'a merge_sorter \<Rightarrow> 'a merge_sorter" where
  "new_merge_sorter indeterminate =
     indeterminate\<lparr> m_parametersSet := False, m_merger := [], m_runFiles := [],
                    m_currentRunItems := [], pull_prepared := False \<rparr>"

definition set_parameters :: "nat \<Rightarrow> nat \<Rightarrow> 'a merge_sorter \<Rightarrow> 'a merge_sorter" where
  "set_parameters runLength' fanout' s =
     s\<lparr> p := (p s)\<lparr> runLength := runLength', internalReportThreshold := runLength',
                     fanout := fanout', finalFanout := fanout' \<rparr>,
        m_parametersSet := True \<rparr>"

definition set_available_memory ::
  "memory_model \<Rightarrow> nat \<Rightarrow> nat \<Rightarrow> nat \<Rightarrow> 'a merge_sorter \<Rightarrow> 'a merge_sorter" where
  "set_available_memory mm m2 m3 m4 s =
     s\<lparr> p := calculate_parameters mm m2 m3 m4, m_parametersSet := True \<rparr>"

text \<open>
  \<^verbatim>\<open>begin\<close> resizes the run buffer to \<open>runLength\<close> items of unspecified value (the argument
  \<open>filler\<close>) and the array of temp files to \<open>2 * fanout\<close> fresh, empty files.
\<close>

definition begin_sorter :: "'a \<Rightarrow> 'a merge_sorter \<Rightarrow> error + 'a merge_sorter" where
  "begin_sorter filler s =
     bind_err (tp_assert (m_parametersSet s) ''Parameters not set'') (\<lambda>_.
       Inr (s\<lparr> m_currentRunItems := replicate (runLength (p s)) filler,
               m_runFiles := replicate (fanout (p s) * 2) [],
               m_currentRunItemCount := 0,
               m_finishedRuns := 0 \<rparr>))"

text \<open>
  Modelled from the spec: \<^verbatim>\<open>parallel_sort\<close> is not part of the sources at hand. Following the
  specification it sorts the given range of the buffer in place, here the first
  \<^verbatim>\<open>m_currentRunItemCount\<close> items, under the comparator, which is the order of the item
  type. A range that ends beyond the buffer is an access outside the array.
\<close>

definition sort_current_run :: "'a::linorder merge_sorter \<Rightarrow> error + 'a merge_sorter" where
  "sort_current_run s =
     (if m_currentRunItemCount s \<le> length (m_currentRunItems s) then
        Inr (s\<lparr> m_currentRunItems :=
                  sort (take (m_currentRunItemCount s) (m_currentRunItems s))
                  @ drop (m_currentRunItemCount s) (m_currentRunItems s) \<rparr>)
      else Inl IndexOutOfRange)"

definition empty_current_run :: "'a merge_sorter \<Rightarrow> error + 'a merge_sorter" where
  "empty_current_run s =
     bind_err (open_run_file_write (p s) (m_runFiles s) 0 (m_finishedRuns s)) (\<lambda>opened.
       if m_currentRunItemCount s \<le> length (m_currentRunItems s) then
         (case foldl fs_write opened (take (m_currentRunItemCount s) (m_currentRunItems s)) of
            (files', fs') \<Rightarrow>
              Inr (s\<lparr> m_runFiles := files',
                      m_currentRunItemCount := 0,
                      m_finishedRuns := m_finishedRuns s + 1 \<rparr>))
       else Inl IndexOutOfRange)"

definition push :: "'a::linorder \<Rightarrow> 'a merge_sorter \<Rightarrow> error + 'a merge_sorter" where
  "push item s =
     bind_err (tp_assert (m_parametersSet s) ''Parameters not set'') (\<lambda>_.
       bind_err (if m_currentRunItemCount s \<ge> runLength (p s)
                 then bind_err (sort_current_run s) empty_current_run
                 else Inr s) (\<lambda>s1.
         if m_currentRunItemCount s1 < length (m_currentRunItems s1) then
           Inr (s1\<lparr> m_currentRunItems := (m_currentRunItems s1)[m_currentRunItemCount s1 := item],
                    m_currentRunItemCount := m_currentRunItemCount s1 + 1 \<rparr>)
         else Inl IndexOutOfRange))"

definition end_sorter :: "'a::linorder merge_sorter \<Rightarrow> error + 'a merge_sorter" where
  "end_sorter s =
     bind_err (tp_assert (m_parametersSet s) ''Parameters not set'') (\<lambda>_.
       bind_err (sort_current_run s) (\<lambda>s1.
         if m_finishedRuns s1 = 0
            \<and> m_currentRunItemCount s1 \<le> internalReportThreshold (p s1)
         then Inr (s1\<lparr> m_reportInternal := True, m_itemsPulled := 0 \<rparr>)
         else bind_err (empty_current_run (s1\<lparr> m_reportInternal := False \<rparr>)) (\<lambda>s2.
                Inr (s2\<lparr> m_currentRunItems := [] \<rparr>))))"

subsection \<open>Phase 3 and 4 helpers\<close>

fun open_runs ::
  "sort_parameters \<Rightarrow> 'a list list \<Rightarrow> nat \<Rightarrow> nat list \<Rightarrow> error + file_stream list" where
  "open_runs prm files mergeLevel [] = Inr []"
| "open_runs prm files mergeLevel (r # rs) =
     bind_err (open_run_file_read prm files mergeLevel r) (\<lambda>fs.
       bind_err (open_runs prm files mergeLevel rs) (\<lambda>fss. Inr (fs # fss)))"

definition initialize_merger ::
  "'a merge_sorter \<Rightarrow> nat \<Rightarrow> nat \<Rightarrow> nat \<Rightarrow> error + 'a merge_sorter" where
  "initialize_merger s mergeLevel runNumber runCount =
     bind_err (open_runs (p s) (m_runFiles s) mergeLevel
                 (map (\<lambda>i. runNumber + i) [0..<runCount])) (\<lambda>ins.
       let runLength' = calculate_run_length (runLength (p s)) (fanout (p s)) mergeLevel
       in Inr (s\<lparr> m_merger := merger_reset (m_runFiles s) ins runLength' \<rparr>))"

text \<open>The loop \<^verbatim>\<open>while (m_merger.can_pull()) out.write(m_merger.pull())\<close> of \<^verbatim>\<open>merge_runs\<close>.\<close>

function merge_write_loop ::
  "'a::linorder merger \<Rightarrow> 'a list list \<times> file_stream
     \<Rightarrow> error + ('a merger \<times> 'a list list \<times> file_stream)" where
  "merge_write_loop m out =
     (if merger_can_pull m then
        (case merger_pull m of
           Inl e \<Rightarrow> Inl e
         | Inr (el, m') \<Rightarrow> merge_write_loop m' (fs_write out el))
      else Inr (m, out))"
  by pat_completeness auto
termination
proof (relation "measure (\<lambda>(m, out). length (concat m))", goal_cases)
  case 1
  show ?case by simp
next
  case (2 m out x2 el m')
  obtain a i where ai: "arg_min_list fst (merger_heads m) = (a, i)"
    by (cases "arg_min_list fst (merger_heads m)")
  from 2(1) have "merger_heads m \<noteq> []"
    by (fastforce simp: merger_can_pull_def merger_heads_def list_ex_iff filter_empty_conv
                        in_set_conv_nth)
  then have "arg_min_list fst (merger_heads m) \<in> set (merger_heads m)"
    by (rule arg_min_list_in)
  with ai have i: "i < length m" "m ! i \<noteq> []"
    by (auto simp: merger_heads_def)
  have dec: "length (concat (m[i := tl (m ! i)])) < length (concat m)"
  proof -
    have "length (concat (take i m @ tl (m ! i) # drop (Suc i) m))
          < length (concat (take i m @ m ! i # drop (Suc i) m))"
      using i(2) by (cases "m ! i") simp_all
    then show ?thesis
      using i(1) by (simp add: upd_conv_take_nth_drop flip: id_take_nth_drop)
  qed
  from 2 ai have "m' = m[i := tl (m ! i)] \<or> m' = []"
    by (auto simp: merger_pull_def Let_def split: if_splits)
  with dec show ?case using i
    by (auto simp: length_concat)
qed

declare merge_write_loop.simps [simp del]

definition merge_runs ::
  "'a::linorder merge_sorter \<Rightarrow> nat \<Rightarrow> nat \<Rightarrow> nat \<Rightarrow> error + ('a merge_sorter \<times> nat)" where
  "merge_runs s mergeLevel runNumber runCount =
     bind_err (initialize_merger s mergeLevel runNumber runCount) (\<lambda>s1.
       if fanout (p s1) = 0 then Inl DivisionByZero
       else
         (let nextRunNumber = runNumber div fanout (p s1) in
          bind_err (open_run_file_write (p s1) (m_runFiles s1) (mergeLevel + 1) nextRunNumber)
            (\<lambda>out.
              bind_err (merge_write_loop (m_merger s1) out) (\<lambda>(m', files', out').
                Inr (s1\<lparr> m_merger := m', m_runFiles := files' \<rparr>, nextRunNumber)))))"

text \<open>
  The inner loop of \<^verbatim>\<open>prepare_pull\<close>:
  \<^verbatim>\<open>for (size_t i = 0; i < runCount; i += p.fanout)\<close>, with its counter \<open>newRunCount\<close>.
\<close>

function merge_level_loop ::
  "'a::linorder merge_sorter \<Rightarrow> nat \<Rightarrow> nat \<Rightarrow> nat \<Rightarrow> nat
     \<Rightarrow> error + ('a merge_sorter \<times> nat)" where
  "merge_level_loop s mergeLevel runCount i newRunCount =
     (if i < runCount then
        (let n = min (runCount - i) (fanout (p s)) in
         case merge_runs s mergeLevel i n of
           Inl e \<Rightarrow> Inl e
         | Inr (s', nextRun) \<Rightarrow>
             merge_level_loop s' mergeLevel runCount (i + fanout (p s)) (newRunCount + 1))
      else Inr (s, newRunCount))"
  by pat_completeness auto
termination
proof (relation "measure (\<lambda>(s, mergeLevel, runCount, i, newRunCount). runCount - i)", goal_cases)
  case 1
  show ?case by simp
next
  case (2 s mergeLevel runCount i newRunCount n x2 s' nextRun)
  from 2(3) have "fanout (p s) \<noteq> 0"
    by (auto simp: merge_runs_def initialize_merger_def bind_err_def Let_def
             split: sum.splits if_splits)
  with 2(1) show ?case by simp
qed

declare merge_level_loop.simps [simp del]

text \<open>
  The outer loop of \<^verbatim>\<open>prepare_pull\<close>: \<^verbatim>\<open>while (runCount > p.fanout)\<close>. Nothing in the
  source bounds its number of rounds, so not returning is the value \<open>None\<close>.
\<close>

partial_function (option) prepare_pull_loop ::
  "'a::linorder merge_sorter \<Rightarrow> nat \<Rightarrow> nat
     \<Rightarrow> (error + ('a merge_sorter \<times> nat \<times> nat)) option" where
  "prepare_pull_loop s mergeLevel runCount =
     (if runCount > fanout (p s) then
        (case merge_level_loop s mergeLevel runCount 0 0 of
           Inl e \<Rightarrow> Some (Inl e)
         | Inr (s', newRunCount) \<Rightarrow> prepare_pull_loop s' (mergeLevel + 1) newRunCount)
      else Some (Inr (s, mergeLevel, runCount)))"

declare prepare_pull_loop.simps [code]

text \<open>
  \<^verbatim>\<open>initialize_final_merger\<close>. The array \<^verbatim>\<open>in\<close> has \<open>finalFanout\<close> entries, so with a
  zero final fanout its first access is outside the array.
\<close>

definition initialize_final_merger ::
  "'a::linorder merge_sorter \<Rightarrow> nat \<Rightarrow> nat \<Rightarrow> error + 'a merge_sorter" where
  "initialize_final_merger s finalMergeLevel runCount =
     (if runCount > finalFanout (p s) then
        (let i = size_t_sub (finalFanout (p s)) 1;
             n = size_t_sub runCount (size_t_sub (finalFanout (p s)) 1)
         in bind_err (merge_runs s finalMergeLevel i n) (\<lambda>(s1, runNumber).
              if finalFanout (p s1) = 0 then Inl IndexOutOfRange
              else
                bind_err (open_runs (p s1) (m_runFiles s1) finalMergeLevel
                            [0..<finalFanout (p s1) - 1]) (\<lambda>short.
                  bind_err (open_run_file_read (p s1) (m_runFiles s1) (finalMergeLevel + 1)
                              runNumber) (\<lambda>long.
                    let runLength' = calculate_run_length (runLength (p s1)) (fanout (p s1))
                                       (finalMergeLevel + 1)
                    in Inr (s1\<lparr> m_merger :=
                                  merger_reset (m_runFiles s1) (short @ [long]) runLength' \<rparr>)))))
      else initialize_merger s finalMergeLevel 0 runCount)"

definition prepare_pull :: "'a::linorder merge_sorter \<Rightarrow> (error + 'a merge_sorter) option" where
  "prepare_pull s =
     (case prepare_pull_loop s 0 (m_finishedRuns s) of
        None \<Rightarrow> None
      | Some (Inl e) \<Rightarrow> Some (Inl e)
      | Some (Inr (s1, mergeLevel, runCount)) \<Rightarrow>
          Some (bind_err (initialize_final_merger s1 mergeLevel runCount) (\<lambda>s2.
                  Inr (s2\<lparr> pull_prepared := True \<rparr>))))"

definition calc :: "'a::linorder merge_sorter \<Rightarrow> (error + 'a merge_sorter) option" where
  "calc s =
     (case tp_assert (m_parametersSet s) ''Parameters not set'' of
        Inl e \<Rightarrow> Some (Inl e)
      | Inr _ \<Rightarrow>
          if \<not> m_reportInternal s then prepare_pull s
          else Some (Inr (s\<lparr> pull_prepared := True \<rparr>)))"

subsection \<open>Phase 4: pulling\<close>

definition can_pull :: "'a merge_sorter \<Rightarrow> error + bool" where
  "can_pull s =
     bind_err (tp_assert (pull_prepared s) ''Pull not prepared'') (\<lambda>_.
       if m_reportInternal s then Inr (m_itemsPulled s < m_currentRunItemCount s)
       else Inr (merger_can_pull (m_merger s)))"

definition pull :: "'a::linorder merge_sorter \<Rightarrow> error + ('a \<times> 'a merge_sorter)" where
  "pull s =
     bind_err (tp_assert (pull_prepared s) ''Pull not prepared'') (\<lambda>_.
       if m_reportInternal s \<and> m_itemsPulled s < m_currentRunItemCount s then
         (if m_itemsPulled s < length (m_currentRunItems s) then
            (let el = m_currentRunItems s ! m_itemsPulled s;
                 s1 = s\<lparr> m_itemsPulled := m_itemsPulled s + 1 \<rparr>
             in bind_err (can_pull s1) (\<lambda>more.
                  Inr (el, if \<not> more then s1\<lparr> m_currentRunItems := [] \<rparr> else s1)))
          else Inl IndexOutOfRange)
       else bind_err (merger_pull (m_merger s)) (\<lambda>(el, m').
              Inr (el, s\<lparr> m_merger := m' \<rparr>)))"

subsection \<open>A client of the sorter\<close>

text \<open>
  The calls a client makes: \<^verbatim>\<open>begin()\<close>, one \<^verbatim>\<open>push\<close> per item, \<^verbatim>\<open>end()\<close>, \<^verbatim>\<open>calc()\<close>, and
  then \<^verbatim>\<open>pull()\<close> for as long as \<^verbatim>\<open>can_pull()\<close> returns true. The first failure ends the
  session.
\<close>

fun push_list :: "'a::linorder list \<Rightarrow> 'a merge_sorter \<Rightarrow> error + 'a merge_sorter" where
  "push_list [] s = Inr s"
| "push_list (x # xs) s = bind_err (push x s) (push_list xs)"

function pull_all :: "'a::linorder merge_sorter \<Rightarrow> error + 'a list" where
  "pull_all s =
     (case can_pull s of
        Inl e \<Rightarrow> Inl e
      | Inr avail \<Rightarrow>
          if avail then
            (case pull s of
               Inl e \<Rightarrow> Inl e
             | Inr (el, s') \<Rightarrow> bind_err (pull_all s') (\<lambda>rest. Inr (el # rest)))
          else Inr [])"
  by pat_completeness auto
termination
proof (relation "measure (\<lambda>s. if m_reportInternal s
                                then m_currentRunItemCount s - m_itemsPulled s
                                else length (concat (m_merger s)))", goal_cases)
  case 1
  show ?case by simp
next
  case (2 s avail x2 el s')
  show ?case
  proof (cases "m_reportInternal s")
    case True
    with 2 show ?thesis
      by (auto simp: can_pull_def pull_def bind_err_def tp_assert_def Let_def
               split: if_splits sum.splits)
  next
    case False
    let ?m = "m_merger s"
    from False 2 have cp: "merger_can_pull ?m"
      by (auto simp: can_pull_def bind_err_def tp_assert_def split: if_splits)
    from False 2 obtain m' where m': "merger_pull ?m = Inr (el, m')" "s' = s\<lparr> m_merger := m' \<rparr>"
      by (auto simp: pull_def bind_err_def tp_assert_def split: if_splits sum.splits)
    obtain a i where ai: "arg_min_list fst (merger_heads ?m) = (a, i)"
      by (cases "arg_min_list fst (merger_heads ?m)")
    from cp have "merger_heads ?m \<noteq> []"
      by (fastforce simp: merger_can_pull_def merger_heads_def list_ex_iff filter_empty_conv
                          in_set_conv_nth)
    then have "arg_min_list fst (merger_heads ?m) \<in> set (merger_heads ?m)"
      by (rule arg_min_list_in)
    with ai have i: "i < length ?m" "?m ! i \<noteq> []"
      by (auto simp: merger_heads_def)
    have dec: "length (concat (?m[i := tl (?m ! i)])) < length (concat ?m)"
    proof -
      have "length (concat (take i ?m @ tl (?m ! i) # drop (Suc i) ?m))
            < length (concat (take i ?m @ ?m ! i # drop (Suc i) ?m))"
        using i(2) by (cases "?m ! i") simp_all
      then show ?thesis
        using i(1) by (simp add: upd_conv_take_nth_drop flip: id_take_nth_drop)
    qed
    from m'(1) ai cp have "m' = ?m[i := tl (?m ! i)] \<or> m' = []"
      by (auto simp: merger_pull_def Let_def split: if_splits)
    with dec i have "length (concat m') < length (concat ?m)"
      by (auto simp: length_concat)
    with False m'(2) show ?thesis by simp
  qed
qed

declare pull_all.simps [simp del]

definition sorter_session ::
  "'a \<Rightarrow> 'a::linorder list \<Rightarrow> 'a merge_sorter \<Rightarrow> (error + 'a list) option" where
  "sorter_session filler items s =
     (case bind_err (begin_sorter filler s) (\<lambda>s1. bind_err (push_list items s1) end_sorter) of
        Inl e \<Rightarrow> Some (Inl e)
      | Inr s3 \<Rightarrow>
          (case calc s3 of
             None \<Rightarrow> None
           | Some (Inl e) \<Rightarrow> Some (Inl e)
           | Some (Inr s4) \<Rightarrow> Some (pull_all s4)))"

section \<open>The parallel execution core\<close>

datatype parallel_worker_state = IDLE | PROCESSING | OUTPUTTING

record parallel_options =
  numJobs :: nat
  bufSize :: nat

text \<open>
  The state shared by producer, workers and consumer (\<^verbatim>\<open>parallel_state\<close>): the fields that are
  read and written under the single mutex, with the content of each worker's input and output
  buffer. The flag \<^verbatim>\<open>done\<close> is the field \<open>done_flag\<close>.
\<close>

record ('a, 'o) parallel_state =
  opts :: parallel_options
  done_flag :: bool
  runningWorkers :: nat
  m_states :: "parallel_worker_state list"
  m_inputBuffers :: "'a list list"
  m_outputBuffers :: "'o list list"

definition new_parallel_state :: "parallel_options \<Rightarrow> ('a, 'o) parallel_state" where
  "new_parallel_state options =
     \<lparr> opts = options, done_flag = False, runningWorkers = 0,
       m_states = replicate (numJobs options) IDLE,
       m_inputBuffers = replicate (numJobs options) [],
       m_outputBuffers = replicate (numJobs options) [] \<rparr>"

text \<open>
  A thread holds the mutex from its acquisition to its return, except while it waits on a
  condition variable. A wait gives the mutex up, so the shared state the thread finds when it
  wakes is the one it left, changed by the other threads: the model takes those changes from
  a list of interferences, one per wait. When a thread has to wait and the list is used up,
  it stays blocked. What a thread does to the shared state and to the condition variables is
  recorded as a list of events, in order.
\<close>

type_synonym ('a, 'o) interference = "('a, 'o) parallel_state \<Rightarrow> ('a, 'o) parallel_state"

datatype event =
    SetState nat parallel_worker_state
  | NotifyProducer
  | NotifyWorker nat
  | WaitWorker nat
  | WaitProducer
  | ResetOutputSize
  | SendInput nat
  | Consume nat
  | SetDone

datatype 'r outcome = Failed error | Blocked | Returned 'r

subsection \<open>\<^verbatim>\<open>parallel_after\<close>\<close>

fun is_done :: "parallel_worker_state \<Rightarrow> bool" where
  "is_done IDLE = True"
| "is_done PROCESSING = True"
| "is_done OUTPUTTING = False"

text \<open>
  The loop \<^verbatim>\<open>while (!is_done()) { if (st.done) return; st.workerCond[parId].wait(lock); }\<close>
  of \<^verbatim>\<open>flush_buffer_impl\<close>, followed by \<^verbatim>\<open>m_buffer->m_outputSize = 0\<close>. The result is the
  shared state at the return, the output buffer size, the events and the interferences not
  yet used.
\<close>

fun flush_wait ::
  "nat \<Rightarrow> nat \<Rightarrow> ('a, 'o) parallel_state \<Rightarrow> ('a, 'o) interference list \<Rightarrow> event list
     \<Rightarrow> (('a, 'o) parallel_state \<times> nat \<times> event list \<times> ('a, 'o) interference list) outcome"
  where
  "flush_wait parId m_outputSize st [] tr =
     (if parId \<ge> length (m_states st) then Failed IndexOutOfRange
      else if is_done (m_states st ! parId) then Returned (st, 0, tr @ [ResetOutputSize], [])
      else if done_flag st then Returned (st, m_outputSize, tr, [])
      else Blocked)"
| "flush_wait parId m_outputSize st (e # env) tr =
     (if parId \<ge> length (m_states st) then Failed IndexOutOfRange
      else if is_done (m_states st ! parId)
      then Returned (st, 0, tr @ [ResetOutputSize], e # env)
      else if done_flag st then Returned (st, m_outputSize, tr, e # env)
      else flush_wait parId m_outputSize (e st) env (tr @ [WaitWorker parId]))"

definition flush_buffer_impl ::
  "nat \<Rightarrow> nat \<Rightarrow> ('a, 'o) parallel_state \<Rightarrow> ('a, 'o) interference list
     \<Rightarrow> (('a, 'o) parallel_state \<times> nat \<times> event list \<times> ('a, 'o) interference list) outcome"
  where
  "flush_buffer_impl parId m_outputSize st env =
     (if m_outputSize = 0 then Returned (st, m_outputSize, [], env)
      else if parId \<ge> length (m_states st) then Failed IndexOutOfRange
      else flush_wait parId m_outputSize
             (st\<lparr> m_states := (m_states st)[parId := OUTPUTTING] \<rparr>) env
             [SetState parId OUTPUTTING, NotifyProducer])"

subsection \<open>\<^verbatim>\<open>parallel_producer\<close>\<close>

text \<open>
  The producer's own fields, and in \<open>consumed\<close> the items that its consumer has pushed
  downstream.
\<close>

record ('a, 'o) producer =
  inputBuffer :: "'a list"
  written :: nat
  readyIdx :: nat
  m_remainingItems :: nat
  consumed :: "'o list"

text \<open>
  \<^verbatim>\<open>begin()\<close>. Whether the datum "items" can be fetched, and its value, is decided by
  \<^verbatim>\<open>pipe_segment\<close>, which is not part of the sources at hand: the argument \<open>items\<close> is \<open>None\<close>
  when \<^verbatim>\<open>can_fetch("items")\<close> is false. The input buffer is resized to \<open>bufSize\<close> items of
  unspecified value, the argument \<open>filler\<close>.
\<close>

definition producer_begin ::
  "nat option \<Rightarrow> 'a \<Rightarrow> parallel_options \<Rightarrow> ('a, 'o) producer \<Rightarrow> error + ('a, 'o) producer" where
  "producer_begin items filler options pr =
     (case items of
        None \<Rightarrow> Inl (RuntimeError ''Parallel processing requires 'items' to be known'')
      | Some n \<Rightarrow>
          Inr (pr\<lparr> inputBuffer := replicate (bufSize options) filler,
                  m_remainingItems := n \<rparr>))"

text \<open>
  The three scans of the worker states. Reading a state beyond the vector of states is an
  access outside the array, which the scans report as the index found.
\<close>

definition has_ready_pipe :: "('a, 'o) parallel_state \<Rightarrow> nat option" where
  "has_ready_pipe st =
     find (\<lambda>i. i \<ge> length (m_states st) \<or> m_states st ! i \<noteq> PROCESSING)
          [0..<numJobs (opts st)]"

definition has_outputting_pipe :: "('a, 'o) parallel_state \<Rightarrow> nat option" where
  "has_outputting_pipe st =
     find (\<lambda>i. i \<ge> length (m_states st) \<or> m_states st ! i = OUTPUTTING)
          [0..<numJobs (opts st)]"

definition has_processing_pipe :: "('a, 'o) parallel_state \<Rightarrow> bool" where
  "has_processing_pipe st =
     list_ex (\<lambda>i. i \<ge> length (m_states st) \<or> m_states st ! i = PROCESSING)
             [0..<numJobs (opts st)]"

text \<open>
  The loop \<^verbatim>\<open>while (written > 0)\<close> of \<^verbatim>\<open>push\<close>: wait for a worker that is not processing;
  hand the staged items to an idle one, or take the output of an outputting one.
  \<^verbatim>\<open>set_input\<close> refuses more items than a worker's buffer of \<open>bufSize\<close> items holds, with the
  message \<^verbatim>\<open>Input buffer not initialized\<close> when that buffer has size 0 and
  \<^verbatim>\<open>Input too large\<close> otherwise.
\<close>

function send_loop ::
  "('a, 'o) parallel_state \<Rightarrow> ('a, 'o) producer \<Rightarrow> ('a, 'o) interference list \<Rightarrow> event list
     \<Rightarrow> (('a, 'o) parallel_state \<times> ('a, 'o) producer \<times> event list
          \<times> ('a, 'o) interference list) outcome" where
  "send_loop st pr env tr =
     (if written pr > 0 then
        (case has_ready_pipe st of
           None \<Rightarrow>
             (case env of
                [] \<Rightarrow> Blocked
              | e # env' \<Rightarrow> send_loop (e st) pr env' (tr @ [WaitProducer]))
         | Some i \<Rightarrow>
             if i \<ge> length (m_states st) then Failed IndexOutOfRange
             else
               (case m_states st ! i of
                  IDLE \<Rightarrow>
                    if written pr > bufSize (opts st)
                    then Failed (RuntimeError (if bufSize (opts st) = 0
                                               then ''Input buffer not initialized''
                                               else ''Input too large''))
                    else send_loop
                           (st\<lparr> m_inputBuffers :=
                                   (m_inputBuffers st)[i := take (written pr) (inputBuffer pr)],
                                 m_states := (m_states st)[i := PROCESSING] \<rparr>)
                           (pr\<lparr> readyIdx := i, written := 0 \<rparr>) env
                           (tr @ [SendInput i, SetState i PROCESSING, NotifyWorker i])
                | PROCESSING \<Rightarrow>
                    Failed (RuntimeError ''State 'processing' not expected at this point'')
                | OUTPUTTING \<Rightarrow>
                    send_loop
                      (st\<lparr> m_states := (m_states st)[i := IDLE] \<rparr>)
                      (pr\<lparr> readyIdx := i,
                           consumed := consumed pr @ m_outputBuffers st ! i \<rparr>) env
                      (tr @ [Consume i, SetState i IDLE, NotifyWorker i])))
      else Returned (st, pr, tr, env))"
  by pat_completeness auto
termination
proof (relation "measures [\<lambda>(st, pr, env, tr). length env,
                           \<lambda>(st, pr, env, tr). length (filter (\<lambda>x. x = OUTPUTTING) (m_states st)),
                           \<lambda>(st, pr, env, tr). written pr]", goal_cases)
  case 1
  show ?case by simp
next
  case (2 st pr env tr e env')
  then show ?case by simp
next
  case (3 st pr env tr i)
  let ?xs = "m_states st"
  from 3 have i: "i < length ?xs" "?xs ! i = IDLE" by simp_all
  have "length (filter (\<lambda>x. x = OUTPUTTING) (take i ?xs @ PROCESSING # drop (Suc i) ?xs))
        = length (filter (\<lambda>x. x = OUTPUTTING) (take i ?xs @ ?xs ! i # drop (Suc i) ?xs))"
    using i(2) by simp
  then have "length (filter (\<lambda>x. x = OUTPUTTING) (?xs[i := PROCESSING]))
        = length (filter (\<lambda>x. x = OUTPUTTING) ?xs)"
    using i(1) by (simp add: upd_conv_take_nth_drop flip: id_take_nth_drop)
  with 3 show ?case by simp
next
  case (4 st pr env tr i)
  let ?xs = "m_states st"
  from 4 have i: "i < length ?xs" "?xs ! i = OUTPUTTING" by simp_all
  have "length (filter (\<lambda>x. x = OUTPUTTING) (take i ?xs @ IDLE # drop (Suc i) ?xs))
        < length (filter (\<lambda>x. x = OUTPUTTING) (take i ?xs @ ?xs ! i # drop (Suc i) ?xs))"
    using i(2) by simp
  then have "length (filter (\<lambda>x. x = OUTPUTTING) (?xs[i := IDLE]))
        < length (filter (\<lambda>x. x = OUTPUTTING) ?xs)"
    using i(1) by (simp add: upd_conv_take_nth_drop flip: id_take_nth_drop)
  then show ?case by simp
qed

declare send_loop.simps [simp del]

text \<open>
  The loop \<^verbatim>\<open>while (!done)\<close> of \<^verbatim>\<open>push\<close>, entered when no item remains: take the output of
  every outputting worker, and wait as long as some worker is processing.
\<close>

function drain_loop ::
  "('a, 'o) parallel_state \<Rightarrow> ('a, 'o) producer \<Rightarrow> ('a, 'o) interference list \<Rightarrow> event list
     \<Rightarrow> (('a, 'o) parallel_state \<times> ('a, 'o) producer \<times> event list
          \<times> ('a, 'o) interference list) outcome" where
  "drain_loop st pr env tr =
     (case has_outputting_pipe st of
        Some i \<Rightarrow>
          if i \<ge> length (m_states st) then Failed IndexOutOfRange
          else drain_loop
                 (st\<lparr> m_states := (m_states st)[i := IDLE] \<rparr>)
                 (pr\<lparr> readyIdx := i, consumed := consumed pr @ m_outputBuffers st ! i \<rparr>) env
                 (tr @ [Consume i, SetState i IDLE])
      | None \<Rightarrow>
          if \<not> has_processing_pipe st then Returned (st, pr, tr, env)
          else
            (case env of
               [] \<Rightarrow> Blocked
             | e # env' \<Rightarrow> drain_loop (e st) pr env' (tr @ [WaitProducer])))"
  by pat_completeness auto
termination
proof (relation "measures [\<lambda>(st, pr, env, tr). length env,
                           \<lambda>(st, pr, env, tr). length (filter (\<lambda>x. x = OUTPUTTING) (m_states st))]",
       goal_cases)
  case 1
  show ?case by simp
next
  case (2 st pr env tr e env')
  then show ?case by simp
next
  case (3 st pr env tr i)
  let ?xs = "m_states st"
  from 3(1) have "i \<in> set [0..<numJobs (opts st)]
                  \<and> (i \<ge> length ?xs \<or> ?xs ! i = OUTPUTTING)"
    unfolding has_outputting_pipe_def by (metis (mono_tags, lifting) find_Some_iff nth_mem)
  with 3(2) have i: "i < length ?xs" "?xs ! i = OUTPUTTING" by simp_all
  have "length (filter (\<lambda>x. x = OUTPUTTING) (take i ?xs @ IDLE # drop (Suc i) ?xs))
        < length (filter (\<lambda>x. x = OUTPUTTING) (take i ?xs @ ?xs ! i # drop (Suc i) ?xs))"
    using i(2) by simp
  then have "length (filter (\<lambda>x. x = OUTPUTTING) (?xs[i := IDLE]))
        < length (filter (\<lambda>x. x = OUTPUTTING) ?xs)"
    using i(1) by (simp add: upd_conv_take_nth_drop flip: id_take_nth_drop)
  then show ?case by simp
qed

declare drain_loop.simps [simp del]

text \<open>The loop \<^verbatim>\<open>while (st->runningWorkers > 0) st->producerCond.wait(lock)\<close>.\<close>

fun join_loop ::
  "('a, 'o) parallel_state \<Rightarrow> ('a, 'o) interference list \<Rightarrow> event list
     \<Rightarrow> (('a, 'o) parallel_state \<times> event list \<times> ('a, 'o) interference list) outcome" where
  "join_loop st [] tr = (if runningWorkers st > 0 then Blocked else Returned (st, tr, []))"
| "join_loop st (e # env) tr =
     (if runningWorkers st > 0 then join_loop (e st) env (tr @ [WaitProducer])
      else Returned (st, tr, e # env))"

definition producer_push ::
  "'a \<Rightarrow> ('a, 'o) parallel_state \<Rightarrow> ('a, 'o) producer \<Rightarrow> ('a, 'o) interference list
     \<Rightarrow> (('a, 'o) parallel_state \<times> ('a, 'o) producer \<times> event list
          \<times> ('a, 'o) interference list) outcome" where
  "producer_push item st pr env =
     (if m_remainingItems pr = 0 then Failed (RuntimeError ''Got more items than expected'')
      else if written pr \<ge> length (inputBuffer pr) then Failed IndexOutOfRange
      else
        (let pr1 = pr\<lparr> inputBuffer := (inputBuffer pr)[written pr := item],
                       written := written pr + 1,
                       m_remainingItems := m_remainingItems pr - 1 \<rparr>
         in if written pr1 < bufSize (opts st) \<and> m_remainingItems pr1 > 0
            then Returned (st, pr1, [], env)
            else
              (case send_loop st pr1 env [] of
                 Failed e \<Rightarrow> Failed e
               | Blocked \<Rightarrow> Blocked
               | Returned (st2, pr2, tr2, env2) \<Rightarrow>
                   if m_remainingItems pr2 > 0 then Returned (st2, pr2, tr2, env2)
                   else
                     (case drain_loop st2 pr2 env2 tr2 of
                        Failed e \<Rightarrow> Failed e
                      | Blocked \<Rightarrow> Blocked
                      | Returned (st3, pr3, tr3, env3) \<Rightarrow>
                          (case join_loop (st3\<lparr> done_flag := True \<rparr>) env3
                                  (tr3 @ [SetDone]
                                   @ map NotifyWorker [0..<numJobs (opts st3)]) of
                             Failed e \<Rightarrow> Failed e
                           | Blocked \<Rightarrow> Blocked
                           | Returned (st4, tr4, env4) \<Rightarrow>
                               Returned (st4, pr3, tr4, env4))))))"

text \<open>\<^verbatim>\<open>end()\<close> only gives the input buffer back.\<close>

definition producer_end :: "('a, 'o) producer \<Rightarrow> ('a, 'o) producer" where
  "producer_end pr = pr\<lparr> inputBuffer := [] \<rparr>"

text \<open>
  The calls of the segment that feeds the producer: \<^verbatim>\<open>begin()\<close>, then one \<^verbatim>\<open>push\<close> per item.
  The first call that fails or stays blocked ends the session; the events of the pushes are
  collected in order.
\<close>

fun producer_push_list ::
  "'a list \<Rightarrow> ('a, 'o) parallel_state \<Rightarrow> ('a, 'o) producer \<Rightarrow> ('a, 'o) interference list
     \<Rightarrow> event list
     \<Rightarrow> (('a, 'o) parallel_state \<times> ('a, 'o) producer \<times> event list
          \<times> ('a, 'o) interference list) outcome" where
  "producer_push_list [] st pr env tr = Returned (st, pr, tr, env)"
| "producer_push_list (x # xs) st pr env tr =
     (case producer_push x st pr env of
        Failed e \<Rightarrow> Failed e
      | Blocked \<Rightarrow> Blocked
      | Returned (st', pr', tr', env') \<Rightarrow> producer_push_list xs st' pr' env' (tr @ tr'))"

definition producer_session ::
  "nat option \<Rightarrow> 'a \<Rightarrow> 'a list \<Rightarrow> ('a, 'o) parallel_state \<Rightarrow> ('a, 'o) producer
     \<Rightarrow> ('a, 'o) interference list
     \<Rightarrow> (('a, 'o) parallel_state \<times> ('a, 'o) producer \<times> event list
          \<times> ('a, 'o) interference list) outcome" where
  "producer_session items filler xs st pr env =
     (case producer_begin items filler (opts st) pr of
        Inl e \<Rightarrow> Failed e
      | Inr pr0 \<Rightarrow> producer_push_list xs st pr0 env [])"

section \<open>Example inputs\<close>

text \<open>Concrete parameters, files and sorter states on which the properties are evaluated.\<close>

definition example_parameters :: sort_parameters where
  "example_parameters =
     \<lparr> memoryPhase2 = 0, memoryPhase3 = 0, memoryPhase4 = 0, runLength = 2,
       internalReportThreshold = 2, fanout = 3, finalFanout = 3 \<rparr>"

definition example_files :: "nat list list" where
  "example_files = [[], [], [], [1, 2, 5, 6, 8, 9], [3, 4, 7, 10, 11, 12, 13, 14, 15], []]"

definition example_memory :: memory_model where
  "example_memory =
     \<lparr> merger_memory_usage = (*) 10, stream_memory_usage = 24, sizeof_temp_file = 8,
       sizeof_T = 8 \<rparr>"

text \<open>
  The calls of a client before \<^verbatim>\<open>calc()\<close>, as data, so that properties can speak about every
  sequence of them.
\<close>

datatype 'a sorter_call =
    SetParameters nat nat
  | SetAvailableMemory memory_model nat nat nat
  | Begin 'a
  | Push 'a
  | End

fun apply_call :: "'a::linorder sorter_call \<Rightarrow> 'a merge_sorter \<Rightarrow> error + 'a merge_sorter" where
  "apply_call (SetParameters runLength' fanout') s = Inr (set_parameters runLength' fanout' s)"
| "apply_call (SetAvailableMemory mm m2 m3 m4) s = Inr (set_available_memory mm m2 m3 m4 s)"
| "apply_call (Begin filler) s = begin_sorter filler s"
| "apply_call (Push item) s = push item s"
| "apply_call End s = end_sorter s"

fun apply_calls ::
  "'a::linorder sorter_call list \<Rightarrow> 'a merge_sorter \<Rightarrow> error + 'a merge_sorter" where
  "apply_calls [] s = Inr s"
| "apply_calls (c # cs) s = bind_err (apply_call c s) (apply_calls cs)"

definition example_indeterminate :: "nat merge_sorter" where
  "example_indeterminate =
     \<lparr> p = \<lparr> memoryPhase2 = 0, memoryPhase3 = 0, memoryPhase4 = 0, runLength = 0,
             internalReportThreshold = 0, fanout = 0, finalFanout = 0 \<rparr>,
       m_parametersSet = False, m_merger = [], m_runFiles = [], m_finishedRuns = 7,
       m_currentRunItems = [], m_currentRunItemCount = 3, m_reportInternal = False,
       m_itemsPulled = 9, pull_prepared = True \<rparr>"

definition example_after_late_push :: "nat merge_sorter" where
  "example_after_late_push =
     \<lparr> p = \<lparr> memoryPhase2 = 0, memoryPhase3 = 0, memoryPhase4 = 0, runLength = 2,
             internalReportThreshold = 2, fanout = 2, finalFanout = 2 \<rparr>,
       m_parametersSet = True, m_merger = [], m_runFiles = [[], [], [], []],
       m_finishedRuns = 0, m_currentRunItems = [5, 3], m_currentRunItemCount = 2,
       m_reportInternal = True, m_itemsPulled = 0, pull_prepared = False \<rparr>"

definition example_unfinished :: "nat merge_sorter" where
  "example_unfinished =
     \<lparr> p = \<lparr> memoryPhase2 = 0, memoryPhase3 = 0, memoryPhase4 = 0, runLength = 2,
             internalReportThreshold = 2, fanout = 2, finalFanout = 2 \<rparr>,
       m_parametersSet = True, m_merger = [], m_runFiles = [[], [], [], []],
       m_finishedRuns = 0, m_currentRunItems = [5, 0], m_currentRunItemCount = 1,
       m_reportInternal = False, m_itemsPulled = 9, pull_prepared = False \<rparr>"

definition example_spilled :: "nat merge_sorter" where
  "example_spilled =
     \<lparr> p = \<lparr> memoryPhase2 = 0, memoryPhase3 = 0, memoryPhase4 = 0, runLength = 2,
             internalReportThreshold = 2, fanout = 2, finalFanout = 2 \<rparr>,
       m_parametersSet = True, m_merger = [], m_runFiles = [[1, 5], [], [], []],
       m_finishedRuns = 1, m_currentRunItems = [4, 5], m_currentRunItemCount = 1,
       m_reportInternal = False, m_itemsPulled = 9, pull_prepared = False \<rparr>"

section \<open>Notions used to state the properties\<close>

text \<open>
  The items that a reader opened on run \<open>runNumber\<close> of level \<open>mergeLevel\<close> hands to a merger that
  takes at most \<open>limit\<close> items of it: the items of the run's file from the reader's offset on.
\<close>

definition run_items :: "sort_parameters \<Rightarrow> 'a list list \<Rightarrow> nat \<Rightarrow> nat \<Rightarrow> nat \<Rightarrow> 'a list" where
  "run_items prm files mergeLevel runNumber limit =
     take limit
       (drop (size_t_mul (calculate_run_length (runLength prm) (fanout prm) mergeLevel)
                         (runNumber div fanout prm))
             (files ! ((mergeLevel mod 2) * fanout prm + runNumber mod fanout prm)))"

text \<open>
  The items that a merger hands out until it cannot be pulled any more. Every pull takes one
  item, so the number of buffered items is enough fuel.
\<close>

fun merger_drain_fuel :: "nat \<Rightarrow> 'a::linorder merger \<Rightarrow> 'a list" where
  "merger_drain_fuel 0 m = []"
| "merger_drain_fuel (Suc n) m =
     (if merger_can_pull m then
        (case merger_pull m of
           Inl e \<Rightarrow> []
         | Inr (el, m') \<Rightarrow> el # merger_drain_fuel n m')
      else [])"

definition merger_drain :: "'a::linorder merger \<Rightarrow> 'a list" where
  "merger_drain m = merger_drain_fuel (length (concat m)) m"

text \<open>
  One round of phase 3 in the words of the specification: the groups \<open>i\<close> of a level, in
  order, group \<open>i\<close> being the \<open>min (runCount - i * fanout) fanout\<close> runs from run
  \<open>i * fanout\<close> on, each merged by \<^verbatim>\<open>merge_runs\<close> into the next level.
\<close>

fun merge_groups ::
  "'a::linorder merge_sorter \<Rightarrow> nat \<Rightarrow> nat \<Rightarrow> nat list \<Rightarrow> error + 'a merge_sorter" where
  "merge_groups s mergeLevel runCount [] = Inr s"
| "merge_groups s mergeLevel runCount (i # groups) =
     bind_err (merge_runs s mergeLevel (i * fanout (p s))
                 (min (runCount - i * fanout (p s)) (fanout (p s))))
       (\<lambda>(s', nextRun). merge_groups s' mergeLevel runCount groups)"

text \<open>
  Writing runs one after the other, as \<^verbatim>\<open>empty_current_run\<close> and \<^verbatim>\<open>merge_runs\<close> do: open the
  run with \<^verbatim>\<open>open_run_file_write\<close>, write its items, go on with the next run number.
\<close>

fun write_runs ::
  "sort_parameters \<Rightarrow> 'a list list \<Rightarrow> nat \<Rightarrow> nat \<Rightarrow> 'a list list \<Rightarrow> error + 'a list list" where
  "write_runs prm files mergeLevel runNumber [] = Inr files"
| "write_runs prm files mergeLevel runNumber (run # runs) =
     bind_err (open_run_file_write prm files mergeLevel runNumber) (\<lambda>opened.
       write_runs prm (fst (foldl fs_write opened run)) mergeLevel (runNumber + 1) runs)"

text \<open>
  A reader can be opened on run \<open>r\<close> of level \<open>L\<close> when the fanout is not zero, the run's file
  exists and the reader's offset is inside the file.
\<close>

definition readable :: "sort_parameters \<Rightarrow> 'a list list \<Rightarrow> nat \<Rightarrow> nat \<Rightarrow> bool" where
  "readable prm files L r \<longleftrightarrow>
     fanout prm \<noteq> 0
   \<and> (L mod 2) * fanout prm + r mod fanout prm < length files
   \<and> size_t_mul (calculate_run_length (runLength prm) (fanout prm) L) (r div fanout prm)
       \<le> length (files ! ((L mod 2) * fanout prm + r mod fanout prm))"

definition example_three_runs :: "nat merge_sorter" where
  "example_three_runs =
     \<lparr> p = \<lparr> memoryPhase2 = 0, memoryPhase3 = 0, memoryPhase4 = 0, runLength = 2,
             internalReportThreshold = 2, fanout = 3, finalFanout = 2 \<rparr>,
       m_parametersSet = True, m_merger = [], m_runFiles = [[3, 5], [4, 8], [1], [], [], []],
       m_finishedRuns = 3, m_currentRunItems = [], m_currentRunItemCount = 0,
       m_reportInternal = False, m_itemsPulled = 0, pull_prepared = False \<rparr>"

definition example_two_way :: "nat merge_sorter" where
  "example_two_way =
     \<lparr> p = \<lparr> memoryPhase2 = 0, memoryPhase3 = 0, memoryPhase4 = 0, runLength = 2,
             internalReportThreshold = 2, fanout = 2, finalFanout = 2 \<rparr>,
       m_parametersSet = True, m_merger = [], m_runFiles = [[3, 5, 1], [4, 8], [], []],
       m_finishedRuns = 3, m_currentRunItems = [], m_currentRunItemCount = 0,
       m_reportInternal = False, m_itemsPulled = 0, pull_prepared = False \<rparr>"

text \<open>
  A shared state with two workers, worker 0 processing, and two interferences: a wake-up that
  finds nothing changed, and the producer taking over the output of worker 0.
\<close>

definition example_shared :: "(nat, nat) parallel_state" where
  "example_shared =
     \<lparr> opts = \<lparr> numJobs = 2, bufSize = 4 \<rparr>, done_flag = False, runningWorkers = 2,
       m_states = [PROCESSING, IDLE], m_inputBuffers = [[1, 2, 3], []],
       m_outputBuffers = [[10, 20, 30], []] \<rparr>"

definition example_spurious_wakeup :: "(nat, nat) interference" where
  "example_spurious_wakeup st = st"

definition example_output_taken :: "(nat, nat) interference" where
  "example_output_taken st = st\<lparr> m_states := (m_states st)[0 := IDLE] \<rparr>"

text \<open>
  A producer that expects one more item, two idle workers, and two interferences: worker 0
  finishing with one output item, and both workers leaving.
\<close>

definition example_idle_shared :: "(nat, nat) parallel_state" where
  "example_idle_shared =
     \<lparr> opts = \<lparr> numJobs = 2, bufSize = 4 \<rparr>, done_flag = False, runningWorkers = 2,
       m_states = [IDLE, IDLE], m_inputBuffers = [[], []], m_outputBuffers = [[], []] \<rparr>"

definition example_producer :: "(nat, nat) producer" where
  "example_producer =
     \<lparr> inputBuffer = [0, 0, 0, 0], written = 0, readyIdx = 0, m_remainingItems = 1,
       consumed = [] \<rparr>"

definition example_worker_outputs :: "(nat, nat) interference" where
  "example_worker_outputs st =
     st\<lparr> m_states := (m_states st)[0 := OUTPUTTING],
         m_outputBuffers := (m_outputBuffers st)[0 := [70]] \<rparr>"

definition example_workers_leave :: "(nat, nat) interference" where
  "example_workers_leave st = st\<lparr> runningWorkers := 0 \<rparr>"

text \<open>
  What the first two loops of \<^verbatim>\<open>push\<close> keep: the count of remaining items, the
  interferences not yet used being among those given, the events so far, to which no setting
  of the flag \<^verbatim>\<open>done\<close> is added, and the options when no interference changes them.
\<close>

definition keeps ::
  "('a, 'o) parallel_state \<Rightarrow> ('a, 'o) producer \<Rightarrow> event list \<Rightarrow> ('a, 'o) interference list
   \<Rightarrow> ('a, 'o) parallel_state \<Rightarrow> ('a, 'o) producer \<Rightarrow> event list
   \<Rightarrow> ('a, 'o) interference list \<Rightarrow> bool" where
  "keeps st pr tr env st' pr' tr' env' \<longleftrightarrow>
     m_remainingItems pr' = m_remainingItems pr
   \<and> set env' \<subseteq> set env
   \<and> (\<exists>more. tr' = tr @ more \<and> SetDone \<notin> set more)
   \<and> ((\<forall>e\<in>set env. \<forall>s. opts (e s) = opts s) \<longrightarrow> opts st' = opts st)"

text \<open>
  The layout of the runs of one level. With the runs of the level given in the order of their
  run numbers, \<open>file_of runs f j\<close> is the concatenation of the runs whose number is \<open>j\<close>
  modulo \<open>f\<close>; the runs are \<open>stored\<close> at level \<open>L\<close> when, for every such \<open>j\<close> that has a run,
  this is the content of file \<open>j\<close> of the bank of level \<open>L\<close>. The runs are \<open>regular\<close> for a run
  length when all but the last have that length and the last is not longer.
\<close>

definition file_of :: "'a list list \<Rightarrow> nat \<Rightarrow> nat \<Rightarrow> 'a list" where
  "file_of runs f j = concat (map (\<lambda>r. runs ! r) (filter (\<lambda>r. r mod f = j) [0..<length runs]))"

definition stored :: "sort_parameters \<Rightarrow> 'a list list \<Rightarrow> nat \<Rightarrow> 'a list list \<Rightarrow> bool" where
  "stored prm files L runs \<longleftrightarrow>
     length files = fanout prm * 2
   \<and> (\<forall>j<fanout prm. j < length runs \<longrightarrow>
          files ! ((L mod 2) * fanout prm + j) = file_of runs (fanout prm) j)"

definition regular :: "nat \<Rightarrow> 'a list list \<Rightarrow> bool" where
  "regular RL runs \<longleftrightarrow>
     (\<forall>r<length runs. length (runs ! r) \<le> RL \<and> (Suc r < length runs \<longrightarrow> length (runs ! r) = RL))"

text \<open>
  The state of the sorter during run formation, with the runs written so far: the run buffer
  has \<open>runLength\<close> places, of which \<^verbatim>\<open>m_currentRunItemCount\<close> are taken, and the finished
  runs are stored at level 0, each full and sorted. \<open>buffered\<close> are the items in the buffer.
\<close>

definition run_formation ::
  "sort_parameters \<Rightarrow> 'a::linorder merge_sorter \<Rightarrow> 'a list list \<Rightarrow> bool" where
  "run_formation prm s runs \<longleftrightarrow>
     p s = prm \<and> m_parametersSet s
   \<and> length (m_currentRunItems s) = runLength prm
   \<and> m_currentRunItemCount s \<le> runLength prm
   \<and> m_finishedRuns s = length runs
   \<and> stored prm (m_runFiles s) 0 runs
   \<and> (\<forall>r\<in>set runs. length r = runLength prm \<and> sorted r)"

definition buffered :: "'a merge_sorter \<Rightarrow> 'a list" where
  "buffered s = take (m_currentRunItemCount s) (m_currentRunItems s)"

text \<open>
  The state of the sorter between merge rounds, with the runs of level \<open>L\<close>: the sorter
  reports externally, the runs are stored at level \<open>L\<close>, regular for the run length of the
  level and sorted, and neither the run length of the next level nor the number of items
  times the fanout leaves the range of \<^verbatim>\<open>size_t\<close>.
\<close>

definition level_state ::
  "sort_parameters \<Rightarrow> 'a::linorder merge_sorter \<Rightarrow> nat \<Rightarrow> 'a list list \<Rightarrow> bool" where
  "level_state prm s L runs \<longleftrightarrow>
     p s = prm \<and> \<not> m_reportInternal s
   \<and> stored prm (m_runFiles s) L runs
   \<and> regular (calculate_run_length (runLength prm) (fanout prm) L) runs
   \<and> (\<forall>r\<in>set runs. sorted r)
   \<and> calculate_run_length (runLength prm) (fanout prm) L * fanout prm < size_t_range
   \<and> length (concat runs) * fanout prm < size_t_range"

text \<open>Group \<open>i\<close> of the runs of a level, merged.\<close>

definition merged_group :: "nat \<Rightarrow> 'a::linorder list list \<Rightarrow> nat \<Rightarrow> 'a list" where
  "merged_group f runs i = merger_drain (take f (drop (i * f) runs))"

section \<open>Properties of the sort parameters and of the run layout\<close>

lemma bind_err_simps [simp]:
  "bind_err (Inr x) f = f x"
  "bind_err (Inl e) f = Inl e"
  by (simp_all add: bind_err_def)

lemma bind_err_eq_Inr:
  "bind_err r f = Inr y \<longleftrightarrow> (\<exists>x. r = Inr x \<and> f x = Inr y)"
  by (cases r) simp_all

subsection \<open>Run length and reader offset\<close>

lemma calculate_run_length_loop_eq:
  "calculate_run_length_loop f L i acc =
     (if L \<le> i then acc else (acc * f ^ (L - i)) mod size_t_range)"
proof (induction f L i acc rule: calculate_run_length_loop.induct)
  case (1 f L i acc)
  show ?case
  proof (cases "i < L")
    case False
    then show ?thesis by (subst calculate_run_length_loop.simps) simp
  next
    case True
    then have L: "L - i = Suc (L - (i + 1))" by simp
    show ?thesis
    proof (cases "L \<le> i + 1")
      case True
      with \<open>i < L\<close> have "L - i = 1" by simp
      with True \<open>i < L\<close> 1 show ?thesis
        by (subst calculate_run_length_loop.simps) (simp add: size_t_mul_def)
    next
      case False
      have "(acc * f mod size_t_range * f ^ (L - (i + 1))) mod size_t_range
            = (acc * f * f ^ (L - (i + 1))) mod size_t_range"
        by (simp add: mod_mult_left_eq)
      also have "\<dots> = (acc * f ^ (L - i)) mod size_t_range"
        by (simp add: L mult.assoc)
      finally show ?thesis
        using False \<open>i < L\<close> 1
        by (subst calculate_run_length_loop.simps) (simp add: size_t_mul_def)
    qed
  qed
qed

lemma calculate_run_length_mod:
  "calculate_run_length rl f L = (if L = 0 then rl else (rl * f ^ L) mod size_t_range)"
  by (simp add: calculate_run_length_def calculate_run_length_loop_eq)

lemma calculate_run_length_exact:
  "rl * f ^ L < size_t_range \<Longrightarrow> calculate_run_length rl f L = rl * f ^ L"
  by (simp add: calculate_run_length_mod)

lemma open_run_file_read_eq:
  "open_run_file_read prm files L r =
     (if fanout prm = 0 then Inl DivisionByZero
      else if \<not> (L mod 2) * fanout prm + r mod fanout prm < length files then Inl IndexOutOfRange
      else if size_t_mul (calculate_run_length (runLength prm) (fanout prm) L) (r div fanout prm)
              \<le> length (files ! ((L mod 2) * fanout prm + r mod fanout prm))
      then Inr \<lparr> fs_file = (L mod 2) * fanout prm + r mod fanout prm,
                 fs_pos = size_t_mul (calculate_run_length (runLength prm) (fanout prm) L)
                                     (r div fanout prm) \<rparr>
      else Inl SeekOutOfRange)"
  by (simp add: open_run_file_read_def run_file_index_def fs_open_def fs_seek_def)

text \<open>
  C4. The run length at merge level \<open>L\<close> is \<open>runLength * fanout ^ L\<close>, and a reader opened
  on run \<open>r\<close> of level \<open>L\<close> is a stream on the file selected by \<open>run_file_index L r\<close>,
  positioned at item offset \<open>run_length L * (r div fanout)\<close>; the reader is opened whenever
  that file exists and is at least that long. The products are those of \<^verbatim>\<open>size_t\<close>
  arithmetic, so they are required to fit into 64 bits.
\<close>

theorem run_length_and_reader_offset:
  assumes "runLength prm * fanout prm ^ L < size_t_range"
      and "runLength prm * fanout prm ^ L * (r div fanout prm) < size_t_range"
  shows "calculate_run_length (runLength prm) (fanout prm) L = runLength prm * fanout prm ^ L
       \<and> (\<forall>fs. open_run_file_read prm files L r = Inr fs \<longrightarrow>
              run_file_index prm L r = Inr (fs_file fs)
            \<and> fs_pos fs = runLength prm * fanout prm ^ L * (r div fanout prm))
       \<and> (\<forall>idx. run_file_index prm L r = Inr idx \<and> idx < length files
              \<and> runLength prm * fanout prm ^ L * (r div fanout prm) \<le> length (files ! idx) \<longrightarrow>
              open_run_file_read prm files L r =
                Inr \<lparr> fs_file = idx,
                      fs_pos = runLength prm * fanout prm ^ L * (r div fanout prm) \<rparr>)"
  using assms
  by (auto simp: calculate_run_length_exact open_run_file_read_eq run_file_index_def
        size_t_mul_def split: if_splits)

theorem run_length_and_reader_offset_witness:
  "runLength example_parameters * fanout example_parameters ^ 1 < size_t_range
   \<and> runLength example_parameters * fanout example_parameters ^ 1
       * (4 div fanout example_parameters) < size_t_range
   \<and> calculate_run_length 2 3 1 = 6
   \<and> run_file_index example_parameters 1 4 = Inr 4
   \<and> open_run_file_read example_parameters example_files 1 4
       = Inr \<lparr> fs_file = 4, fs_pos = 6 \<rparr>"
proof -
  have h1: "runLength example_parameters * fanout example_parameters ^ 1 < size_t_range"
    by (simp add: example_parameters_def size_t_range_def)
  have h2: "runLength example_parameters * fanout example_parameters ^ 1
       * (4 div fanout example_parameters) < size_t_range"
    by (simp add: example_parameters_def size_t_range_def)
  have h3: "run_file_index example_parameters 1 4 = Inr 4"
    by (simp add: example_parameters_def run_file_index_def)
  have h4: "calculate_run_length 2 3 1 = 6"
    using run_length_and_reader_offset [OF h1 h2, THEN conjunct1]
    by (simp add: example_parameters_def)
  have h5: "open_run_file_read example_parameters example_files 1 4
       = Inr \<lparr> fs_file = 4, fs_pos = 6 \<rparr>"
    using run_length_and_reader_offset
            [OF h1 h2, THEN conjunct2, THEN conjunct2, rule_format, of 4 example_files] h3
    by (simp add: example_parameters_def example_files_def)
  from h1 h2 h3 h4 h5 show ?thesis by blast
qed

subsection \<open>Fanout calculation\<close>

lemma calculate_fanout_loop_bounds:
  "lo < hi \<Longrightarrow>
     lo \<le> calculate_fanout_loop mm m lo hi
   \<and> calculate_fanout_loop mm m lo hi < hi
   \<and> (calculate_fanout_loop mm m lo hi = lo
        \<or> fanout_memory_usage mm (calculate_fanout_loop mm m lo hi) < m)
   \<and> (calculate_fanout_loop mm m lo hi + 1 = hi
        \<or> \<not> fanout_memory_usage mm (calculate_fanout_loop mm m lo hi + 1) < m)"
proof (induction mm m lo hi rule: calculate_fanout_loop.induct)
  case (1 mm m lo hi)
  let ?mid = "lo + (hi - lo) div 2"
  show ?case
  proof (cases "lo < hi - 1")
    case False
    with 1(3) have "hi = lo + 1" by simp
    with False show ?thesis
      by (subst (1 2 3 4 5) calculate_fanout_loop.simps) simp
  next
    case True
    then have mid: "lo < ?mid" "?mid < hi" by simp_all
    show ?thesis
    proof (cases "fanout_memory_usage mm ?mid < m")
      case fits: True
      have eq: "calculate_fanout_loop mm m lo hi = calculate_fanout_loop mm m ?mid hi"
        using True fits by (subst calculate_fanout_loop.simps) (simp add: Let_def)
      from 1(1) [OF True refl fits mid(2)] mid fits show ?thesis
        unfolding eq by auto
    next
      case nofit: False
      have eq: "calculate_fanout_loop mm m lo hi = calculate_fanout_loop mm m lo ?mid"
        using True nofit by (subst calculate_fanout_loop.simps) (simp add: Let_def)
      let ?r = "calculate_fanout_loop mm m lo ?mid"
      from 1(2) [OF True refl nofit mid(1)]
      have ih: "lo \<le> ?r" "?r < ?mid" "?r = lo \<or> fanout_memory_usage mm ?r < m"
               "?r + 1 = ?mid \<or> \<not> fanout_memory_usage mm (?r + 1) < m"
        by simp_all
      from ih(4) nofit have "\<not> fanout_memory_usage mm (?r + 1) < m"
        by (elim disjE) simp_all
      with ih(1,2,3) mid(2) show ?thesis
        unfolding eq by simp
    qed
  qed
qed

lemma calculate_fanout_range: "2 \<le> calculate_fanout mm m \<and> calculate_fanout mm m < 251"
  using calculate_fanout_loop_bounds [of 2 251 mm m] by (simp add: calculate_fanout_def)

lemma calculate_fanout_largest:
  assumes mono: "\<forall>f g. f \<le> g \<longrightarrow> fanout_memory_usage mm f \<le> fanout_memory_usage mm g"
      and g: "2 \<le> g" "g < 251" "fanout_memory_usage mm g < m"
  shows "g \<le> calculate_fanout mm m \<and> fanout_memory_usage mm (calculate_fanout mm m) < m"
proof -
  let ?r = "calculate_fanout mm m"
  from calculate_fanout_loop_bounds [of 2 251 mm m]
  have r: "2 \<le> ?r" "?r < 251" "?r = 2 \<or> fanout_memory_usage mm ?r < m"
          "?r + 1 = 251 \<or> \<not> fanout_memory_usage mm (?r + 1) < m"
    by (simp_all add: calculate_fanout_def)
  have "g \<le> ?r"
  proof (rule ccontr)
    assume "\<not> g \<le> ?r"
    then have le: "?r + 1 \<le> g" by simp
    with g(2) r(4) have "\<not> fanout_memory_usage mm (?r + 1) < m" by auto
    moreover from mono le have "fanout_memory_usage mm (?r + 1) \<le> fanout_memory_usage mm g"
      by blast
    ultimately show False using g(3) by simp
  qed
  moreover have "fanout_memory_usage mm ?r < m"
  proof -
    from mono g(1) have "fanout_memory_usage mm 2 \<le> fanout_memory_usage mm g" by blast
    with g(3) have "fanout_memory_usage mm 2 < m" by simp
    with r(3) show ?thesis by auto
  qed
  ultimately show ?thesis by simp
qed

lemma calculate_parameters_fanout:
  "fanout (calculate_parameters mm m2 m3 m4) = calculate_fanout mm m3"
  by (simp add: calculate_parameters_def Let_def)

lemma calculate_parameters_finalFanout:
  "finalFanout (calculate_parameters mm m2 m3 m4) =
     min (calculate_fanout mm m4) (calculate_fanout mm m3)"
  by (simp add: calculate_parameters_def Let_def min_def)

text \<open>
  C7, as the code has it. \<^verbatim>\<open>calculate_fanout\<close> searches \<open>[2, 251)\<close> with the test
  \<open>fanout_memory_usage mid < availableMemory\<close>, a strict comparison. For a memory usage that
  grows with the fanout, the result is the largest \<open>f\<close> of the interval whose usage is strictly
  below the available memory, and it is 2 when no \<open>f\<close> of the interval qualifies. The fanout
  is the result for \<open>m3\<close>; the final fanout is the result for \<open>m4\<close>, capped by the fanout.
\<close>

theorem fanout_is_largest_strictly_fitting:
  assumes "\<forall>f g. f \<le> g \<longrightarrow> fanout_memory_usage mm f \<le> fanout_memory_usage mm g"
  shows "fanout (calculate_parameters mm m2 m3 m4) = calculate_fanout mm m3
       \<and> finalFanout (calculate_parameters mm m2 m3 m4)
           = min (calculate_fanout mm m4) (fanout (calculate_parameters mm m2 m3 m4))
       \<and> finalFanout (calculate_parameters mm m2 m3 m4) \<le> fanout (calculate_parameters mm m2 m3 m4)
       \<and> (\<forall>m. calculate_fanout mm m \<in> {2..<251}
              \<and> (\<forall>g\<in>{2..<251}. fanout_memory_usage mm g < m \<longrightarrow>
                     g \<le> calculate_fanout mm m
                   \<and> fanout_memory_usage mm (calculate_fanout mm m) < m)
              \<and> ((\<forall>g\<in>{2..<251}. \<not> fanout_memory_usage mm g < m) \<longrightarrow> calculate_fanout mm m = 2))"
proof -
  have "calculate_fanout mm m = 2" if "\<forall>g\<in>{2..<251}. \<not> fanout_memory_usage mm g < m" for m
    using calculate_fanout_loop_bounds [of 2 251 mm m] calculate_fanout_range [of mm m] that
    by (auto simp: calculate_fanout_def)
  moreover have "calculate_fanout mm m \<in> {2..<251}" for m
    using calculate_fanout_range [of mm m] by simp
  moreover have "\<forall>g\<in>{2..<251}. fanout_memory_usage mm g < m \<longrightarrow>
                     g \<le> calculate_fanout mm m
                   \<and> fanout_memory_usage mm (calculate_fanout mm m) < m" for m
    using calculate_fanout_largest [OF assms, of _ m] by auto
  ultimately show ?thesis
    by (simp add: calculate_parameters_fanout calculate_parameters_finalFanout)
qed

theorem fanout_is_largest_strictly_fitting_witness:
  "fanout_memory_usage example_memory 99 < 1040
   \<and> fanout (calculate_parameters example_memory 4096 1040 540) = 99
   \<and> finalFanout (calculate_parameters example_memory 4096 1040 540) = 49
   \<and> finalFanout (calculate_parameters example_memory 4096 1040 540)
       \<le> fanout (calculate_parameters example_memory 4096 1040 540)"
proof -
  have mono: "\<forall>f g. f \<le> g \<longrightarrow>
       fanout_memory_usage example_memory f \<le> fanout_memory_usage example_memory g"
    by (simp add: fanout_memory_usage_def example_memory_def)
  have c3: "calculate_fanout example_memory 1040 = 99"
    by code_simp
  have c4: "calculate_fanout example_memory 540 = 49"
    by code_simp
  have u: "fanout_memory_usage example_memory 99 < 1040"
    by (simp add: fanout_memory_usage_def example_memory_def)
  from fanout_is_largest_strictly_fitting [OF mono, of 4096 1040 540] u c3 c4
  show ?thesis by simp
qed

text \<open>
  C7, as stated, asks for the largest \<open>f\<close> whose usage is at most \<open>m3\<close>. With a usage of
  \<open>10 * f + 40\<close> bytes and \<open>m3 = 1040\<close>, the fanout 100 is in the interval and uses exactly
  1040 bytes, yet the chosen fanout is 99.
\<close>

theorem fanout_not_largest_fitting_counterexample:
  "(100::nat) \<in> {2..<251}
   \<and> fanout_memory_usage example_memory 100 \<le> 1040
   \<and> fanout (calculate_parameters example_memory 4096 1040 540) = 99"
proof -
  have "calculate_fanout example_memory 1040 = 99"
    by code_simp
  then show ?thesis
    by (simp add: calculate_parameters_fanout fanout_memory_usage_def example_memory_def)
qed

section \<open>Properties of the merge sorter\<close>

subsection \<open>Phase 2 operations\<close>

lemma sort_current_run_Inr:
  "sort_current_run s = Inr s' \<longleftrightarrow>
     m_currentRunItemCount s \<le> length (m_currentRunItems s)
   \<and> s' = s\<lparr> m_currentRunItems :=
                  sort (take (m_currentRunItemCount s) (m_currentRunItems s))
                  @ drop (m_currentRunItemCount s) (m_currentRunItems s) \<rparr>"
  by (auto simp: sort_current_run_def)

lemma empty_current_run_Inr:
  "empty_current_run s = Inr s' \<longleftrightarrow>
     (\<exists>opened.
        open_run_file_write (p s) (m_runFiles s) 0 (m_finishedRuns s) = Inr opened
      \<and> m_currentRunItemCount s \<le> length (m_currentRunItems s)
      \<and> s' = s\<lparr> m_runFiles :=
                     fst (foldl fs_write opened
                            (take (m_currentRunItemCount s) (m_currentRunItems s))),
                   m_currentRunItemCount := 0,
                   m_finishedRuns := m_finishedRuns s + 1 \<rparr>)"
proof -
  have "(case x of (files', fs') \<Rightarrow> f files') = f (fst x)" for x :: "'a list list \<times> file_stream"
    and f :: "'a list list \<Rightarrow> error + 'a merge_sorter"
    by (cases x) simp
  then show ?thesis
    by (auto simp: empty_current_run_def bind_err_eq_Inr)
qed

subsection \<open>Detection of misuse\<close>

lemma push_pull_prepared:
  assumes "push item s = Inr s'"
  shows "pull_prepared s' = pull_prepared s"
proof -
  from assms obtain s1 where
    s1: "(if m_currentRunItemCount s \<ge> runLength (p s)
          then bind_err (sort_current_run s) empty_current_run else Inr s) = Inr s1"
    and s': "s' = s1\<lparr> m_currentRunItems := (m_currentRunItems s1)[m_currentRunItemCount s1 := item],
                    m_currentRunItemCount := m_currentRunItemCount s1 + 1 \<rparr>"
    by (auto simp: push_def bind_err_eq_Inr split: if_splits)
  from s1 have "pull_prepared s1 = pull_prepared s"
    by (auto simp: bind_err_eq_Inr sort_current_run_Inr empty_current_run_Inr split: if_splits)
  with s' show ?thesis by simp
qed

lemma end_sorter_pull_prepared:
  "end_sorter s = Inr s' \<Longrightarrow> pull_prepared s' = pull_prepared s"
  by (auto simp: end_sorter_def bind_err_eq_Inr sort_current_run_Inr empty_current_run_Inr
           split: if_splits)

lemma apply_call_pull_prepared:
  "apply_call c s = Inr s' \<Longrightarrow> pull_prepared s' = pull_prepared s"
  by (cases c)
     (auto simp: set_parameters_def set_available_memory_def begin_sorter_def tp_assert_def
        bind_err_eq_Inr push_pull_prepared end_sorter_pull_prepared split: if_splits)

lemma apply_calls_pull_prepared:
  "apply_calls cs s = Inr s' \<Longrightarrow> pull_prepared s' = pull_prepared s"
proof (induction cs arbitrary: s)
  case Nil
  then show ?case by simp
next
  case (Cons c cs)
  then obtain s1 where "apply_call c s = Inr s1" "apply_calls cs s1 = Inr s'"
    by (auto simp: bind_err_eq_Inr)
  with Cons.IH show ?case
    by (simp add: apply_call_pull_prepared)
qed

text \<open>
  C8, as the code has it. The only phase check of the sorter is the assertion on
  \<^verbatim>\<open>pull_prepared\<close>: after any sequence of parameter settings, \<^verbatim>\<open>begin\<close>, \<^verbatim>\<open>push\<close> and
  \<^verbatim>\<open>end\<close> calls on a new sorter, that is before \<^verbatim>\<open>calc()\<close>, both \<^verbatim>\<open>pull()\<close> and
  \<^verbatim>\<open>can_pull()\<close> fail with the assertion "Pull not prepared".
\<close>

theorem pull_before_calc_is_reported:
  assumes "apply_calls calls (new_merge_sorter indeterminate) = Inr s"
  shows "pull s = Inl (AssertionFailed ''Pull not prepared'')
       \<and> can_pull s = Inl (AssertionFailed ''Pull not prepared'')"
proof -
  from assms have "pull_prepared s = pull_prepared (new_merge_sorter indeterminate)"
    by (rule apply_calls_pull_prepared)
  then have "\<not> pull_prepared s"
    by (simp add: new_merge_sorter_def)
  then show ?thesis
    by (simp add: pull_def can_pull_def tp_assert_def)
qed

theorem pull_before_calc_is_reported_witness:
  "apply_calls [SetParameters 2 2, Begin 0, Push 5, End, Push 3]
     (new_merge_sorter example_indeterminate) = Inr example_after_late_push
   \<and> pull example_after_late_push = Inl (AssertionFailed ''Pull not prepared'')
   \<and> can_pull example_after_late_push = Inl (AssertionFailed ''Pull not prepared'')"
proof -
  have run: "apply_calls [SetParameters 2 2, Begin 0, Push 5, End, Push 3]
     (new_merge_sorter example_indeterminate) = Inr example_after_late_push"
    by code_simp
  from pull_before_calc_is_reported [OF run] run show ?thesis by simp
qed

text \<open>
  C8, as stated, also asks that \<^verbatim>\<open>push\<close> after \<^verbatim>\<open>end()\<close> and \<^verbatim>\<open>calc\<close> before \<^verbatim>\<open>end()\<close> are
  reported. Neither is: a \<^verbatim>\<open>push\<close> after an \<^verbatim>\<open>end()\<close> that chose internal reporting stores
  the item, and \<^verbatim>\<open>calc()\<close> without \<^verbatim>\<open>end()\<close> prepares pulling.
\<close>

theorem misuse_not_reported_counterexample:
  "apply_calls [SetParameters 2 2, Begin 0, Push 5, End, Push 3]
     (new_merge_sorter example_indeterminate) = Inr example_after_late_push
   \<and> apply_calls [SetParameters 2 2, Begin 0, Push 5]
     (new_merge_sorter example_indeterminate) = Inr example_unfinished
   \<and> calc example_unfinished = Some (Inr (example_unfinished\<lparr> pull_prepared := True \<rparr>))"
  by code_simp

subsection \<open>Writing a run\<close>

lemma foldl_fs_write_append:
  "fs_file fs < length files \<Longrightarrow> fs_pos fs = length (files ! fs_file fs) \<Longrightarrow>
   foldl fs_write (files, fs) xs =
     (files[fs_file fs := files ! fs_file fs @ xs], fs\<lparr> fs_pos := fs_pos fs + length xs \<rparr>)"
proof (induction xs arbitrary: files fs)
  case Nil
  then show ?case by simp
next
  case (Cons x xs)
  let ?files1 = "files[fs_file fs := files ! fs_file fs @ [x]]"
  let ?fs1 = "fs\<lparr> fs_pos := fs_pos fs + 1 \<rparr>"
  have step: "fs_write (files, fs) x = (?files1, ?fs1)"
    using Cons.prems by (simp add: fs_write_def Let_def)
  have "foldl fs_write (?files1, ?fs1) xs =
          (?files1[fs_file ?fs1 := ?files1 ! fs_file ?fs1 @ xs],
           ?fs1\<lparr> fs_pos := fs_pos ?fs1 + length xs \<rparr>)"
    using Cons.prems by (intro Cons.IH) simp_all
  with step Cons.prems show ?case by simp
qed

lemma open_run_file_write_eq:
  "open_run_file_write prm files L r =
     (if fanout prm = 0 then Inl DivisionByZero
      else if (L mod 2) * fanout prm + r mod fanout prm < length files then
        Inr (if r < fanout prm then files[(L mod 2) * fanout prm + r mod fanout prm := []]
             else files,
             \<lparr> fs_file = (L mod 2) * fanout prm + r mod fanout prm,
               fs_pos = (if r < fanout prm then 0
                         else length (files ! ((L mod 2) * fanout prm + r mod fanout prm))) \<rparr>)
      else Inl IndexOutOfRange)"
  by (simp add: open_run_file_write_def run_file_index_def fs_open_def fs_seek_end_def
        temp_file_free_def Let_def)

text \<open>Opening run \<open>r\<close> of level \<open>L\<close> for writing and writing \<open>xs\<close> appends \<open>xs\<close> to the run's
  file, which is emptied first when \<open>r < fanout\<close>.\<close>

lemma write_run_files:
  assumes "open_run_file_write prm files L r = Inr opened"
  shows "fst (foldl fs_write opened xs) =
           files[(L mod 2) * fanout prm + r mod fanout prm :=
                   (if r < fanout prm then []
                    else files ! ((L mod 2) * fanout prm + r mod fanout prm)) @ xs]"
proof -
  let ?idx = "(L mod 2) * fanout prm + r mod fanout prm"
  from assms have idx: "?idx < length files" and f: "fanout prm \<noteq> 0"
    by (auto simp: open_run_file_write_eq split: if_splits)
  show ?thesis
  proof (cases "r < fanout prm")
    case True
    with assms idx f have "opened = (files[?idx := []], \<lparr> fs_file = ?idx, fs_pos = 0 \<rparr>)"
      by (simp add: open_run_file_write_eq)
    with idx True show ?thesis
      by (simp add: foldl_fs_write_append)
  next
    case False
    with assms idx f have "opened = (files, \<lparr> fs_file = ?idx, fs_pos = length (files ! ?idx) \<rparr>)"
      by (simp add: open_run_file_write_eq)
    with idx False show ?thesis
      by (simp add: foldl_fs_write_append)
  qed
qed

subsection \<open>Internal reporting\<close>

lemma pull_all_done:
  "pull_prepared s \<Longrightarrow> m_reportInternal s \<Longrightarrow> \<not> m_itemsPulled s < m_currentRunItemCount s \<Longrightarrow>
   pull_all s = Inr []"
  by (subst pull_all.simps) (simp add: can_pull_def tp_assert_def)

lemma pull_all_internal:
  "pull_prepared s \<Longrightarrow> m_reportInternal s \<Longrightarrow>
   m_itemsPulled s \<le> m_currentRunItemCount s \<Longrightarrow>
   m_currentRunItemCount s \<le> length (m_currentRunItems s) \<Longrightarrow>
   n = m_currentRunItemCount s - m_itemsPulled s \<Longrightarrow>
   pull_all s = Inr (take n (drop (m_itemsPulled s) (m_currentRunItems s)))"
proof (induction n arbitrary: s)
  case 0
  then show ?case by (simp add: pull_all_done)
next
  case (Suc n)
  let ?k = "m_itemsPulled s"
  let ?s1 = "s\<lparr> m_itemsPulled := ?k + 1 \<rparr>"
  from Suc.prems have lt: "?k < m_currentRunItemCount s" "?k < length (m_currentRunItems s)"
    by simp_all
  have cp: "can_pull s = Inr True"
    using Suc.prems lt by (simp add: can_pull_def tp_assert_def)
  have items: "take (Suc n) (drop ?k (m_currentRunItems s))
               = m_currentRunItems s ! ?k # take n (drop (?k + 1) (m_currentRunItems s))"
    using lt by (simp add: Cons_nth_drop_Suc [symmetric])
  show ?case
  proof (cases "?k + 1 < m_currentRunItemCount s")
    case True
    then have pl: "pull s = Inr (m_currentRunItems s ! ?k, ?s1)"
      using Suc.prems lt by (simp add: pull_def can_pull_def tp_assert_def Let_def)
    have "pull_all ?s1 = Inr (take n (drop (m_itemsPulled ?s1) (m_currentRunItems ?s1)))"
      using Suc.prems True by (intro Suc.IH) simp_all
    with cp pl items show ?thesis
      by (subst pull_all.simps) simp
  next
    case False
    then have pl: "pull s = Inr (m_currentRunItems s ! ?k, ?s1\<lparr> m_currentRunItems := [] \<rparr>)"
      using Suc.prems lt by (simp add: pull_def can_pull_def tp_assert_def Let_def)
    have "pull_all (?s1\<lparr> m_currentRunItems := [] \<rparr>) = Inr []"
      using Suc.prems False by (intro pull_all_done) simp_all
    moreover from False Suc.prems have "n = 0" by simp
    ultimately show ?thesis using cp pl items
      by (subst pull_all.simps) simp
  qed
qed

text \<open>
  C2. For a sorter with parameters set whose buffer holds \<open>m_currentRunItemCount\<close> items:
  \<^item> if no run has been nextRun and the buffered items are at most
    \<open>internalReportThreshold\<close>, \<^verbatim>\<open>end()\<close> enters internal reporting and leaves the run files
    alone, \<^verbatim>\<open>calc()\<close> only sets \<^verbatim>\<open>pull_prepared\<close> (no merging, no file is touched), and pulling
    while \<^verbatim>\<open>can_pull()\<close> yields the buffered items in sorted order;
  \<^item> in every other case (with the \<open>2 * fanout\<close> temp files that \<^verbatim>\<open>begin()\<close> allocates)
    \<^verbatim>\<open>end()\<close> chooses external reporting and appends the sorted buffer as run number
    \<open>m_finishedRuns\<close> of level 0, emptying the buffer and counting one more finished run;
  \<^item> in internal reporting \<^verbatim>\<open>can_pull()\<close> is true exactly when the number of items pulled is
    less than the number of buffered items.
\<close>

theorem end_sorter_reporting_mode:
  assumes "m_parametersSet s"
      and "m_currentRunItemCount s \<le> length (m_currentRunItems s)"
  shows "(m_finishedRuns s = 0 \<and> m_currentRunItemCount s \<le> internalReportThreshold (p s) \<longrightarrow>
            (\<exists>s'. end_sorter s = Inr s'
                \<and> m_reportInternal s'
                \<and> m_runFiles s' = m_runFiles s \<and> m_finishedRuns s' = 0
                \<and> calc s' = Some (Inr (s'\<lparr> pull_prepared := True \<rparr>))
                \<and> pull_all (s'\<lparr> pull_prepared := True \<rparr>)
                    = Inr (sort (take (m_currentRunItemCount s) (m_currentRunItems s)))))
       \<and> (\<not> (m_finishedRuns s = 0 \<and> m_currentRunItemCount s \<le> internalReportThreshold (p s))
            \<and> fanout (p s) > 0 \<and> length (m_runFiles s) = fanout (p s) * 2 \<longrightarrow>
            end_sorter s =
              Inr (s\<lparr> m_currentRunItems := [],
                      m_reportInternal := False,
                      m_runFiles := (m_runFiles s)
                        [m_finishedRuns s mod fanout (p s) :=
                           (if m_finishedRuns s < fanout (p s) then []
                            else m_runFiles s ! (m_finishedRuns s mod fanout (p s)))
                           @ sort (take (m_currentRunItemCount s) (m_currentRunItems s))],
                      m_currentRunItemCount := 0,
                      m_finishedRuns := m_finishedRuns s + 1 \<rparr>))
       \<and> (\<forall>t :: 'a merge_sorter. pull_prepared t \<and> m_reportInternal t \<longrightarrow>
              can_pull t = Inr (m_itemsPulled t < m_currentRunItemCount t))"
proof (intro conjI impI allI)
  assume a: "m_finishedRuns s = 0 \<and> m_currentRunItemCount s \<le> internalReportThreshold (p s)"
  let ?sorted = "sort (take (m_currentRunItemCount s) (m_currentRunItems s))"
  let ?s' = "s\<lparr> m_currentRunItems := ?sorted @ drop (m_currentRunItemCount s) (m_currentRunItems s),
                 m_reportInternal := True, m_itemsPulled := 0 \<rparr>"
  have e: "end_sorter s = Inr ?s'"
    using assms a by (simp add: end_sorter_def tp_assert_def sort_current_run_def)
  have c: "calc ?s' = Some (Inr (?s'\<lparr> pull_prepared := True \<rparr>))"
    using assms by (simp add: calc_def tp_assert_def)
  have "pull_all (?s'\<lparr> pull_prepared := True \<rparr>)
        = Inr (take (m_currentRunItemCount s)
                 (drop 0 (?sorted @ drop (m_currentRunItemCount s) (m_currentRunItems s))))"
    using assms by (subst pull_all_internal [where n = "m_currentRunItemCount s"]) simp_all
  then have "pull_all (?s'\<lparr> pull_prepared := True \<rparr>) = Inr ?sorted"
    using assms(2) by simp
  with e c a show "\<exists>s'. end_sorter s = Inr s'
                \<and> m_reportInternal s'
                \<and> m_runFiles s' = m_runFiles s \<and> m_finishedRuns s' = 0
                \<and> calc s' = Some (Inr (s'\<lparr> pull_prepared := True \<rparr>))
                \<and> pull_all (s'\<lparr> pull_prepared := True \<rparr>) = Inr ?sorted"
    by simp
next
  assume b: "\<not> (m_finishedRuns s = 0 \<and> m_currentRunItemCount s \<le> internalReportThreshold (p s))
            \<and> fanout (p s) > 0 \<and> length (m_runFiles s) = fanout (p s) * 2"
  let ?sorted = "sort (take (m_currentRunItemCount s) (m_currentRunItems s))"
  let ?s1 = "s\<lparr> m_currentRunItems := ?sorted @ drop (m_currentRunItemCount s) (m_currentRunItems s),
                 m_reportInternal := False \<rparr>"
  from b have idx: "m_finishedRuns s mod fanout (p s) < length (m_runFiles s)"
    by (simp add: less_le_trans [OF mod_less_divisor])
  then obtain opened where
    o: "open_run_file_write (p ?s1) (m_runFiles ?s1) 0 (m_finishedRuns ?s1) = Inr opened"
    using b by (auto simp: open_run_file_write_eq)
  from write_run_files [OF o, of ?sorted]
  have w: "fst (foldl fs_write opened ?sorted) =
           (m_runFiles s)[m_finishedRuns s mod fanout (p s) :=
              (if m_finishedRuns s < fanout (p s) then []
               else m_runFiles s ! (m_finishedRuns s mod fanout (p s))) @ ?sorted]"
    by simp
  have "empty_current_run ?s1 =
          Inr (?s1\<lparr> m_runFiles := fst (foldl fs_write opened ?sorted),
                    m_currentRunItemCount := 0,
                    m_finishedRuns := m_finishedRuns s + 1 \<rparr>)"
    using o assms(2) by (subst empty_current_run_Inr) simp
  with w b assms show "end_sorter s =
              Inr (s\<lparr> m_currentRunItems := [],
                      m_reportInternal := False,
                      m_runFiles := (m_runFiles s)
                        [m_finishedRuns s mod fanout (p s) :=
                           (if m_finishedRuns s < fanout (p s) then []
                            else m_runFiles s ! (m_finishedRuns s mod fanout (p s)))
                           @ ?sorted],
                      m_currentRunItemCount := 0,
                      m_finishedRuns := m_finishedRuns s + 1 \<rparr>)"
    by (auto simp: end_sorter_def tp_assert_def sort_current_run_def)
next
  fix t :: "'a merge_sorter"
  assume "pull_prepared t \<and> m_reportInternal t"
  then show "can_pull t = Inr (m_itemsPulled t < m_currentRunItemCount t)"
    by (simp add: can_pull_def tp_assert_def)
qed


theorem end_sorter_reporting_mode_witness:
  "m_parametersSet example_unfinished
   \<and> m_currentRunItemCount example_unfinished \<le> length (m_currentRunItems example_unfinished)
   \<and> m_finishedRuns example_unfinished = 0
   \<and> m_currentRunItemCount example_unfinished \<le> internalReportThreshold (p example_unfinished)
   \<and> end_sorter example_unfinished
       = Inr (example_unfinished\<lparr> m_reportInternal := True, m_itemsPulled := 0 \<rparr>)
   \<and> pull_all (example_unfinished\<lparr> m_reportInternal := True, m_itemsPulled := 0,
                                     pull_prepared := True \<rparr>) = Inr [5]
   \<and> m_parametersSet example_spilled
   \<and> m_currentRunItemCount example_spilled \<le> length (m_currentRunItems example_spilled)
   \<and> m_finishedRuns example_spilled = 1
   \<and> fanout (p example_spilled) > 0
   \<and> length (m_runFiles example_spilled) = fanout (p example_spilled) * 2
   \<and> end_sorter example_spilled
       = Inr (example_spilled\<lparr> m_currentRunItems := [], m_runFiles := [[1, 5], [4], [], []],
                              m_currentRunItemCount := 0, m_finishedRuns := 2 \<rparr>)"
proof -
  have h1: "m_parametersSet example_unfinished"
    and h2: "m_currentRunItemCount example_unfinished
             \<le> length (m_currentRunItems example_unfinished)"
    and a: "m_finishedRuns example_unfinished = 0
            \<and> m_currentRunItemCount example_unfinished
                \<le> internalReportThreshold (p example_unfinished)"
    by (simp_all add: example_unfinished_def)
  have e1: "end_sorter example_unfinished
            = Inr (example_unfinished\<lparr> m_reportInternal := True, m_itemsPulled := 0 \<rparr>)"
    by (simp add: example_unfinished_def end_sorter_def tp_assert_def sort_current_run_def)
  from end_sorter_reporting_mode [OF h1 h2, THEN conjunct1, rule_format, OF a] e1
  have "pull_all (example_unfinished\<lparr> m_reportInternal := True, m_itemsPulled := 0,
                                      pull_prepared := True \<rparr>)
        = Inr (sort (take (m_currentRunItemCount example_unfinished)
                      (m_currentRunItems example_unfinished)))"
    by auto
  then have p1: "pull_all (example_unfinished\<lparr> m_reportInternal := True, m_itemsPulled := 0,
                                      pull_prepared := True \<rparr>) = Inr [5]"
    by (simp add: example_unfinished_def)
  have h3: "m_parametersSet example_spilled"
    and h4: "m_currentRunItemCount example_spilled \<le> length (m_currentRunItems example_spilled)"
    and b: "\<not> (m_finishedRuns example_spilled = 0
              \<and> m_currentRunItemCount example_spilled
                  \<le> internalReportThreshold (p example_spilled))
            \<and> fanout (p example_spilled) > 0
            \<and> length (m_runFiles example_spilled) = fanout (p example_spilled) * 2"
    and c: "m_finishedRuns example_spilled = 1"
    by (simp_all add: example_spilled_def)
  from end_sorter_reporting_mode [OF h3 h4, THEN conjunct2, THEN conjunct1, rule_format, OF b]
  have e2: "end_sorter example_spilled
       = Inr (example_spilled\<lparr> m_currentRunItems := [], m_runFiles := [[1, 5], [4], [], []],
                              m_currentRunItemCount := 0, m_finishedRuns := 2 \<rparr>)"
    by (simp add: example_spilled_def)
  from h1 h2 a e1 p1 h3 h4 b c e2 show ?thesis by simp
qed

subsection \<open>The merger\<close>

lemma merger_can_pull_iff: "merger_can_pull m \<longleftrightarrow> concat m \<noteq> []"
  by (auto simp: merger_can_pull_def list_ex_iff)

lemma merger_heads_empty_iff: "merger_heads m = [] \<longleftrightarrow> \<not> merger_can_pull m"
  by (fastforce simp: merger_can_pull_def merger_heads_def list_ex_iff filter_empty_conv
                      in_set_conv_nth)

lemma set_merger_heads:
  "set (merger_heads m) = {(hd (m ! i), i) | i. i < length m \<and> m ! i \<noteq> []}"
  by (auto simp: merger_heads_def)

lemma merger_pull_cases:
  assumes "merger_can_pull m"
  obtains i where "i < length m" "m ! i \<noteq> []"
    "\<forall>j<length m. m ! j \<noteq> [] \<longrightarrow> hd (m ! i) \<le> hd (m ! j)"
    "merger_pull m = Inr (hd (m ! i),
        if merger_can_pull (m[i := tl (m ! i)]) then m[i := tl (m ! i)] else [])"
proof -
  obtain el i where ai: "arg_min_list fst (merger_heads m) = (el, i)"
    by (cases "arg_min_list fst (merger_heads m)")
  from assms have ne: "merger_heads m \<noteq> []"
    by (simp add: merger_heads_empty_iff)
  then have "arg_min_list fst (merger_heads m) \<in> set (merger_heads m)"
    by (rule arg_min_list_in)
  with ai have i: "i < length m" "m ! i \<noteq> []" "el = hd (m ! i)"
    by (auto simp: set_merger_heads)
  have least: "hd (m ! i) \<le> hd (m ! j)" if "j < length m" "m ! j \<noteq> []" for j
  proof -
    from that have "(hd (m ! j), j) \<in> set (merger_heads m)"
      by (auto simp: set_merger_heads)
    then have "Min (fst ` set (merger_heads m)) \<le> fst (hd (m ! j), j)"
      by (intro Min_le) (auto intro: rev_image_eqI)
    then have "fst (arg_min_list fst (merger_heads m)) \<le> fst (hd (m ! j), j)"
      using ne by (simp add: f_arg_min_list_f)
    with ai i(3) show ?thesis by simp
  qed
  have "merger_pull m = Inr (hd (m ! i),
        if merger_can_pull (m[i := tl (m ! i)]) then m[i := tl (m ! i)] else [])"
    using assms ai i(3) by (simp add: merger_pull_def Let_def)
  with i least that show thesis by blast
qed

lemma concat_update_tl:
  assumes "i < length m" "m ! i \<noteq> []"
  shows "mset (concat m) = add_mset (hd (m ! i)) (mset (concat (m[i := tl (m ! i)])))"
    and "length (concat (m[i := tl (m ! i)])) < length (concat m)"
proof -
  have m: "m = take i m @ m ! i # drop (Suc i) m"
    using assms(1) by (rule id_take_nth_drop)
  have u: "m[i := tl (m ! i)] = take i m @ tl (m ! i) # drop (Suc i) m"
    using assms(1) by (rule upd_conv_take_nth_drop)
  obtain x xs where x: "m ! i = x # xs"
    using assms(2) by (cases "m ! i") auto
  have "mset (concat (take i m @ m ! i # drop (Suc i) m))
        = add_mset (hd (m ! i)) (mset (concat (take i m @ tl (m ! i) # drop (Suc i) m)))"
    by (simp add: x)
  with m u show "mset (concat m) = add_mset (hd (m ! i)) (mset (concat (m[i := tl (m ! i)])))"
    by metis
  have "length (concat (take i m @ tl (m ! i) # drop (Suc i) m))
        < length (concat (take i m @ m ! i # drop (Suc i) m))"
    by (simp add: x)
  with m u show "length (concat (m[i := tl (m ! i)])) < length (concat m)"
    by metis
qed

text \<open>What one pull does to the buffered items: it removes a least item.\<close>

lemma merger_pull_step:
  assumes "merger_can_pull m"
  obtains el m' where "merger_pull m = Inr (el, m')"
    "mset (concat m) = add_mset el (mset (concat m'))"
    "length (concat m') < length (concat m)"
    "(\<forall>r\<in>set m. sorted r) \<longrightarrow> (\<forall>x\<in>set (concat m). el \<le> x) \<and> (\<forall>r\<in>set m'. sorted r)"
    "merger_can_pull m' \<or> m' = []"
proof -
  from assms obtain i where i: "i < length m" "m ! i \<noteq> []"
    and least: "\<forall>j<length m. m ! j \<noteq> [] \<longrightarrow> hd (m ! i) \<le> hd (m ! j)"
    and pull: "merger_pull m = Inr (hd (m ! i),
        if merger_can_pull (m[i := tl (m ! i)]) then m[i := tl (m ! i)] else [])"
    by (rule merger_pull_cases)
  let ?m1 = "m[i := tl (m ! i)]"
  let ?m' = "if merger_can_pull ?m1 then ?m1 else []"
  have c: "concat ?m' = concat ?m1"
    by (simp add: merger_can_pull_iff)
  have 1: "mset (concat m) = add_mset (hd (m ! i)) (mset (concat ?m'))"
    unfolding c using i by (rule concat_update_tl)
  have 2: "length (concat ?m') < length (concat m)"
    unfolding c using i by (rule concat_update_tl)
  have 3: "(\<forall>x\<in>set (concat m). hd (m ! i) \<le> x) \<and> (\<forall>r\<in>set ?m'. sorted r)"
    if srt: "\<forall>r\<in>set m. sorted r"
  proof
    show "\<forall>x\<in>set (concat m). hd (m ! i) \<le> x"
    proof
      fix x assume "x \<in> set (concat m)"
      then obtain r where "r \<in> set m" "x \<in> set r"
        by auto
      then obtain j where j: "j < length m" "x \<in> set (m ! j)"
        by (metis in_set_conv_nth)
      then have ne: "m ! j \<noteq> []" by auto
      from srt j(1) have "sorted (m ! j)" by simp
      with j(2) ne have "hd (m ! j) \<le> x"
        by (cases "m ! j") auto
      with least j(1) ne show "hd (m ! i) \<le> x" by force
    qed
    have "sorted (tl (m ! i))"
      using srt i(1) by (simp add: sorted_tl)
    with srt have "\<forall>r\<in>set ?m1. sorted r"
      by (auto dest!: set_update_subset_insert [THEN subsetD])
    then show "\<forall>r\<in>set ?m'. sorted r" by simp
  qed
  have 4: "merger_can_pull ?m' \<or> ?m' = []" by simp
  from pull 1 2 3 4 that show thesis by blast
qed

lemma merger_drain_fuel_enough:
  "length (concat m) \<le> n \<Longrightarrow> length (concat m) \<le> k \<Longrightarrow>
   merger_drain_fuel n m = merger_drain_fuel k m"
proof (induction n arbitrary: m k)
  case 0
  then have "\<not> merger_can_pull m" by (simp add: merger_can_pull_iff)
  then show ?case by (cases k) simp_all
next
  case (Suc n)
  show ?case
  proof (cases "merger_can_pull m")
    case False
    then have "merger_drain_fuel j m = []" for j
      by (cases j) simp_all
    then show ?thesis by simp
  next
    case True
    then obtain el m' where pull: "merger_pull m = Inr (el, m')"
      and len: "length (concat m') < length (concat m)"
      by (rule merger_pull_step)
    from len Suc.prems(2) obtain k' where k: "k = Suc k'"
      by (cases k) auto
    from len k Suc.prems have "length (concat m') \<le> n" "length (concat m') \<le> k'"
      by simp_all
    then have "merger_drain_fuel n m' = merger_drain_fuel k' m'"
      by (rule Suc.IH)
    with True pull k show ?thesis by simp
  qed
qed

lemma merger_drain_simps:
  "merger_drain m =
     (if merger_can_pull m then
        (case merger_pull m of Inl e \<Rightarrow> [] | Inr (el, m') \<Rightarrow> el # merger_drain m')
      else [])"
proof (cases "merger_can_pull m")
  case False
  then have "merger_drain_fuel j m = []" for j
    by (cases j) simp_all
  with False show ?thesis by (simp add: merger_drain_def)
next
  case True
  then obtain el m' where pull: "merger_pull m = Inr (el, m')"
    and len: "length (concat m') < length (concat m)"
    by (rule merger_pull_step)
  from len obtain k where k: "length (concat m) = Suc k"
    by (cases "length (concat m)") auto
  with len have "merger_drain_fuel k m' = merger_drain_fuel (length (concat m')) m'"
    by (intro merger_drain_fuel_enough) simp_all
  with True pull k show ?thesis by (simp add: merger_drain_def)
qed

lemma merger_drain_empty [simp]: "\<not> merger_can_pull m \<Longrightarrow> merger_drain m = []"
  by (subst merger_drain_simps) simp

text \<open>The merger's output is a sorted permutation of its sorted inputs.\<close>

lemma merger_drain_correct:
  "mset (merger_drain m) = mset (concat m)
   \<and> ((\<forall>r\<in>set m. sorted r) \<longrightarrow> sorted (merger_drain m))"
proof (induction "length (concat m)" arbitrary: m rule: less_induct)
  case less
  show ?case
  proof (cases "merger_can_pull m")
    case False
    then show ?thesis by (simp add: merger_can_pull_iff)
  next
    case True
    then obtain el m' where pull: "merger_pull m = Inr (el, m')"
      and ms: "mset (concat m) = add_mset el (mset (concat m'))"
      and len: "length (concat m') < length (concat m)"
      and srt: "(\<forall>r\<in>set m. sorted r) \<longrightarrow>
                  (\<forall>x\<in>set (concat m). el \<le> x) \<and> (\<forall>r\<in>set m'. sorted r)"
      by (rule merger_pull_step)
    from less [OF len]
    have ih: "mset (merger_drain m') = mset (concat m')"
             "(\<forall>r\<in>set m'. sorted r) \<longrightarrow> sorted (merger_drain m')"
      by simp_all
    have d: "merger_drain m = el # merger_drain m'"
      using True pull by (subst merger_drain_simps) simp
    have "sorted (el # merger_drain m')" if s: "\<forall>r\<in>set m. sorted r"
    proof -
      from ih(1) have "set (merger_drain m') = set (concat m')"
        by (rule mset_eq_setD)
      moreover from ms have "set (concat m') \<subseteq> set (concat m)"
        by (metis mset_eq_setD set_mset_add_mset_insert set_mset_mset subset_insertI)
      ultimately show ?thesis using srt ih(2) s by auto
    qed
    with d ms ih(1) show ?thesis by simp
  qed
qed

lemma length_merger_drain: "length (merger_drain m) = length (concat m)"
  by (metis merger_drain_correct size_mset)

subsection \<open>Merging runs\<close>

lemma merge_write_loop_eq:
  "merge_write_loop m out =
     Inr (if merger_can_pull m then [] else m,
          fst (foldl fs_write out (merger_drain m)),
          snd (foldl fs_write out (merger_drain m)))"
proof (induction m out rule: merge_write_loop.induct)
  case (1 m out)
  show ?case
  proof (cases "merger_can_pull m")
    case False
    then show ?thesis
      by (subst merge_write_loop.simps) simp
  next
    case True
    then obtain el m' where pull: "merger_pull m = Inr (el, m')"
      and m': "merger_can_pull m' \<or> m' = []"
      by (rule merger_pull_step)
    have d: "merger_drain m = el # merger_drain m'"
      using True pull by (subst merger_drain_simps) simp
    have e: "(if merger_can_pull m' then [] else m') = []"
      using m' by auto
    from 1 [OF True pull refl] True pull show ?thesis
      by (subst merge_write_loop.simps) (simp add: d e)
  qed
qed

lemma open_runs_Inr:
  assumes "open_runs prm files L rs = Inr ins"
  shows "merger_reset files ins n = map (\<lambda>r. run_items prm files L r n) rs"
  using assms
proof (induction rs arbitrary: ins)
  case Nil
  then show ?case by (simp add: merger_reset_def)
next
  case (Cons r rs)
  from Cons.prems obtain fs fss where fs: "open_run_file_read prm files L r = Inr fs"
    and fss: "open_runs prm files L rs = Inr fss" and ins: "ins = fs # fss"
    by (auto simp: bind_err_eq_Inr)
  from fs have "take n (drop (fs_pos fs) (files ! fs_file fs)) = run_items prm files L r n"
    by (auto simp: open_run_file_read_eq run_items_def split: if_splits)
  with Cons.IH [OF fss] ins show ?case
    by (simp add: merger_reset_def)
qed

lemma open_run_file_read_readable:
  "readable prm files L r \<Longrightarrow> \<exists>fs. open_run_file_read prm files L r = Inr fs"
  by (simp add: readable_def open_run_file_read_eq)

lemma open_runs_readable:
  "\<forall>r\<in>set rs. readable prm files L r \<Longrightarrow> \<exists>ins. open_runs prm files L rs = Inr ins"
proof (induction rs)
  case Nil
  then show ?case by simp
next
  case (Cons r rs)
  then obtain fs ins where "open_run_file_read prm files L r = Inr fs"
    "open_runs prm files L rs = Inr ins"
    using open_run_file_read_readable [of prm files L r] by auto
  then show ?case by simp
qed

lemma initialize_merger_Inr:
  assumes "initialize_merger s L rn rc = Inr s'"
  shows "s' = s\<lparr> m_merger :=
                   map (\<lambda>r. run_items (p s) (m_runFiles s) L r
                               (calculate_run_length (runLength (p s)) (fanout (p s)) L))
                       [rn..<rn + rc] \<rparr>"
proof -
  have rs: "map (\<lambda>i. rn + i) [0..<rc] = [rn..<rn + rc]"
    by (induction rc) simp_all
  from assms obtain ins where ins: "open_runs (p s) (m_runFiles s) L [rn..<rn + rc] = Inr ins"
    and s': "s' = s\<lparr> m_merger := merger_reset (m_runFiles s) ins
                       (calculate_run_length (runLength (p s)) (fanout (p s)) L) \<rparr>"
    by (auto simp: initialize_merger_def bind_err_eq_Inr Let_def rs)
  from open_runs_Inr [OF ins] s' show ?thesis by simp
qed

lemma initialize_merger_readable:
  assumes "\<forall>r\<in>{rn..<rn + rc}. readable (p s) (m_runFiles s) L r"
  shows "initialize_merger s L rn rc =
           Inr (s\<lparr> m_merger :=
                   map (\<lambda>r. run_items (p s) (m_runFiles s) L r
                               (calculate_run_length (runLength (p s)) (fanout (p s)) L))
                       [rn..<rn + rc] \<rparr>)"
proof -
  have rs: "map (\<lambda>i. rn + i) [0..<rc] = [rn..<rn + rc]"
    by (induction rc) simp_all
  from assms obtain ins where
    "open_runs (p s) (m_runFiles s) L (map (\<lambda>i. rn + i) [0..<rc]) = Inr ins"
    using open_runs_readable [of "[rn..<rn + rc]" "p s" "m_runFiles s" L] by (auto simp: rs)
  then obtain s' where "initialize_merger s L rn rc = Inr s'"
    by (simp add: initialize_merger_def Let_def)
  then show ?thesis
    using initialize_merger_Inr by metis
qed

text \<open>
  \<^verbatim>\<open>merge_runs\<close>: the runs \<open>rn, \<dots>, rn + rc - 1\<close> of level \<open>L\<close> are read, their merge is
  appended to the file of run \<open>rn div fanout\<close> of level \<open>L + 1\<close>, which is emptied first when that
  run number is below the fanout, and that run number is returned.
\<close>

lemma merge_runs_Inr:
  assumes "merge_runs s L rn rc = Inr (s', nextRun)"
  defines "f \<equiv> fanout (p s)"
  defines "idx \<equiv> ((L + 1) mod 2) * f + (rn div f) mod f"
  defines "runs \<equiv> map (\<lambda>r. run_items (p s) (m_runFiles s) L r
                               (calculate_run_length (runLength (p s)) f L)) [rn..<rn + rc]"
  shows "nextRun = rn div f" and "f \<noteq> 0" and "idx < length (m_runFiles s)"
    and "s' = s\<lparr> m_merger := (if merger_can_pull runs then [] else runs),
                  m_runFiles := (m_runFiles s)
                     [idx := (if rn div f < f then [] else m_runFiles s ! idx)
                             @ merger_drain runs] \<rparr>"
proof -
  from assms(1) obtain s1 where s1: "initialize_merger s L rn rc = Inr s1"
    by (auto simp: merge_runs_def bind_err_eq_Inr)
  then have s1_eq: "s1 = s\<lparr> m_merger := runs \<rparr>"
    unfolding runs_def f_def by (rule initialize_merger_Inr)
  from assms(1) s1 s1_eq show f: "f \<noteq> 0"
    by (auto simp: merge_runs_def f_def split: if_splits)
  from assms(1) s1 s1_eq f obtain opened where
    o: "open_run_file_write (p s) (m_runFiles s) (L + 1) (rn div f) = Inr opened"
    and r: "Inr (s', nextRun) =
            Inr (s1\<lparr> m_merger := (if merger_can_pull runs then [] else runs),
                     m_runFiles := fst (foldl fs_write opened (merger_drain runs)) \<rparr>, rn div f)"
    by (auto simp: merge_runs_def f_def Let_def bind_err_eq_Inr merge_write_loop_eq
          case_prod_beta)
  from r show "nextRun = rn div f" by simp
  from o show "idx < length (m_runFiles s)"
    by (auto simp: open_run_file_write_eq idx_def f_def split: if_splits)
  from r s1_eq write_run_files [OF o, of "merger_drain runs"]
  show "s' = s\<lparr> m_merger := (if merger_can_pull runs then [] else runs),
                  m_runFiles := (m_runFiles s)
                     [idx := (if rn div f < f then [] else m_runFiles s ! idx)
                             @ merger_drain runs] \<rparr>"
    by (simp add: idx_def f_def)
qed

lemma merge_runs_readable:
  assumes "\<forall>r\<in>{rn..<rn + rc}. readable (p s) (m_runFiles s) L r"
      and "fanout (p s) \<noteq> 0"
      and "((L + 1) mod 2) * fanout (p s) + (rn div fanout (p s)) mod fanout (p s)
           < length (m_runFiles s)"
  shows "\<exists>s'. merge_runs s L rn rc = Inr (s', rn div fanout (p s))"
  using assms initialize_merger_readable [OF assms(1)]
  by (simp add: merge_runs_def Let_def open_run_file_write_eq merge_write_loop_eq
        case_prod_beta)

subsection \<open>The final merger\<close>

lemma size_t_sub_exact:
  assumes "b \<le> a" "a < size_t_range"
  shows "size_t_sub a b = a - b"
proof -
  have "a + size_t_range - b = (a - b) + size_t_range"
    using assms by simp
  then have "(a + size_t_range - b) mod size_t_range = (a - b) mod size_t_range"
    by simp
  with assms show ?thesis
    by (simp add: size_t_sub_def)
qed

text \<open>
  C6. When \<^verbatim>\<open>initialize_final_merger\<close> has set up the merger for \<open>runCount\<close> runs of the final
  level \<open>L\<close> (with a final fanout of at least 1):
  \<^item> if \<open>runCount \<le> finalFanout\<close>, no file is touched and the merger is over exactly the
    runs \<open>0, \<dots>, runCount - 1\<close> of level \<open>L\<close>;
  \<^item> otherwise \<^verbatim>\<open>merge_runs\<close> has first merged the \<open>runCount - finalFanout + 1\<close> runs from run
    \<open>finalFanout - 1\<close> on into one run of level \<open>L + 1\<close>, and the merger has \<open>finalFanout\<close>
    inputs: the runs \<open>0, \<dots>, finalFanout - 2\<close> of level \<open>L\<close> followed by that run of level
    \<open>L + 1\<close>, all read with the run length of level \<open>L + 1\<close>.
\<close>

theorem final_merger_setup:
  assumes "initialize_final_merger s L runCount = Inr s'"
      and "0 < finalFanout (p s)"
      and "finalFanout (p s) < size_t_range" and "runCount < size_t_range"
  shows "(runCount \<le> finalFanout (p s) \<longrightarrow>
            m_runFiles s' = m_runFiles s
          \<and> m_merger s' =
              map (\<lambda>r. run_items (p s) (m_runFiles s) L r
                          (calculate_run_length (runLength (p s)) (fanout (p s)) L))
                  [0..<runCount])
       \<and> (finalFanout (p s) < runCount \<longrightarrow>
            (\<exists>s1. merge_runs s L (finalFanout (p s) - 1) (runCount - finalFanout (p s) + 1)
                     = Inr (s1, (finalFanout (p s) - 1) div fanout (p s))
                \<and> m_runFiles s' = m_runFiles s1
                \<and> m_merger s' =
                    map (\<lambda>r. run_items (p s) (m_runFiles s1) L r
                                (calculate_run_length (runLength (p s)) (fanout (p s)) (L + 1)))
                        [0..<finalFanout (p s) - 1]
                    @ [run_items (p s) (m_runFiles s1) (L + 1)
                         ((finalFanout (p s) - 1) div fanout (p s))
                         (calculate_run_length (runLength (p s)) (fanout (p s)) (L + 1))]
                \<and> length (m_merger s') = finalFanout (p s)))"
proof (rule conjI; rule impI)
  assume le: "runCount \<le> finalFanout (p s)"
  with assms(1) have "initialize_merger s L 0 runCount = Inr s'"
    by (simp add: initialize_final_merger_def)
  from initialize_merger_Inr [OF this]
  show "m_runFiles s' = m_runFiles s
          \<and> m_merger s' =
              map (\<lambda>r. run_items (p s) (m_runFiles s) L r
                          (calculate_run_length (runLength (p s)) (fanout (p s)) L))
                  [0..<runCount]"
    by simp
next
  assume gt: "finalFanout (p s) < runCount"
  let ?ff = "finalFanout (p s)"
  let ?RL = "calculate_run_length (runLength (p s)) (fanout (p s)) (L + 1)"
  have i: "size_t_sub ?ff (Suc 0) = ?ff - Suc 0"
    using assms(2,3) by (simp add: size_t_sub_exact)
  have n: "size_t_sub runCount (?ff - Suc 0) = Suc (runCount - ?ff)"
    using assms(2,4) gt by (simp add: size_t_sub_exact)
  obtain s1 nextRun where
    m: "merge_runs s L (?ff - 1) (runCount - ?ff + 1) = Inr (s1, nextRun)"
    and rest: "(if finalFanout (p s1) = 0 then Inl IndexOutOfRange
       else bind_err (open_runs (p s1) (m_runFiles s1) L [0..<finalFanout (p s1) - 1]) (\<lambda>short.
              bind_err (open_run_file_read (p s1) (m_runFiles s1) (L + 1) nextRun) (\<lambda>long.
                Inr (s1\<lparr> m_merger := merger_reset (m_runFiles s1) (short @ [long])
                     (calculate_run_length (runLength (p s1)) (fanout (p s1)) (L + 1)) \<rparr>))))
       = Inr s'"
    using assms(1) gt unfolding initialize_final_merger_def Let_def
    by (auto simp: i n bind_err_eq_Inr)
  from merge_runs_Inr [OF m] have w: "nextRun = (?ff - 1) div fanout (p s)" and ps: "p s1 = p s"
    by simp_all
  from rest ps assms(2) obtain short long where
    short: "open_runs (p s) (m_runFiles s1) L [0..<?ff - 1] = Inr short"
    and long: "open_run_file_read (p s) (m_runFiles s1) (L + 1) nextRun = Inr long"
    and s': "s' = s1\<lparr> m_merger := merger_reset (m_runFiles s1) (short @ [long]) ?RL \<rparr>"
    by (auto simp: bind_err_eq_Inr)
  have long': "open_runs (p s) (m_runFiles s1) (L + 1) [nextRun] = Inr [long]"
    using long by simp
  have "merger_reset (m_runFiles s1) (short @ [long]) ?RL
        = merger_reset (m_runFiles s1) short ?RL @ merger_reset (m_runFiles s1) [long] ?RL"
    by (simp add: merger_reset_def)
  also have "\<dots> = map (\<lambda>r. run_items (p s) (m_runFiles s1) L r ?RL) [0..<?ff - 1]
                   @ map (\<lambda>r. run_items (p s) (m_runFiles s1) (L + 1) r ?RL) [nextRun]"
    by (simp only: open_runs_Inr [OF short] open_runs_Inr [OF long'])
  finally have mm: "m_merger s' =
       map (\<lambda>r. run_items (p s) (m_runFiles s1) L r ?RL) [0..<?ff - 1]
       @ [run_items (p s) (m_runFiles s1) (L + 1) ((?ff - 1) div fanout (p s)) ?RL]"
    using s' w by simp
  then have "length (m_merger s') = ?ff"
    using assms(2) by simp
  with m w s' mm
  show "\<exists>s1. merge_runs s L (?ff - 1) (runCount - ?ff + 1)
                     = Inr (s1, (?ff - 1) div fanout (p s))
                \<and> m_runFiles s' = m_runFiles s1
                \<and> m_merger s' =
                    map (\<lambda>r. run_items (p s) (m_runFiles s1) L r ?RL) [0..<?ff - 1]
                    @ [run_items (p s) (m_runFiles s1) (L + 1)
                         ((?ff - 1) div fanout (p s)) ?RL]
                \<and> length (m_merger s') = ?ff"
    by auto
qed


theorem final_merger_setup_witness:
  "initialize_final_merger example_three_runs 0 3
     = Inr (example_three_runs\<lparr> m_merger := [[3, 5], [1, 4, 8]],
             m_runFiles := [[3, 5], [4, 8], [1], [1, 4, 8], [], []] \<rparr>)
   \<and> 0 < finalFanout (p example_three_runs)
   \<and> finalFanout (p example_three_runs) < size_t_range
   \<and> (3::nat) < size_t_range
   \<and> finalFanout (p example_three_runs) < 3
   \<and> length (m_merger (example_three_runs\<lparr> m_merger := [[3, 5], [1, 4, 8]],
             m_runFiles := [[3, 5], [4, 8], [1], [1, 4, 8], [], []] \<rparr>))
       = finalFanout (p example_three_runs)"
proof -
  have d: "merger_drain [[4, 8], [1::nat]] = [1, 4, 8]"
    by code_simp
  have c: "merger_can_pull [[4, 8], [1::nat]]"
    by code_simp
  have m: "merge_runs example_three_runs 0 1 2
           = Inr (example_three_runs\<lparr> m_merger := [],
                    m_runFiles := [[3, 5], [4, 8], [1], [1, 4, 8], [], []] \<rparr>, 0)"
    by (simp add: merge_runs_def initialize_merger_def example_three_runs_def
          open_run_file_read_eq open_run_file_write_eq merge_write_loop_eq
          calculate_run_length_mod size_t_mul_def size_t_range_def merger_reset_def
          upt_rec fs_write_def Let_def d [simplified] c [simplified])
  have ff: "finalFanout (p example_three_runs) = 2"
    by (simp add: example_three_runs_def)
  have h1: "initialize_final_merger example_three_runs 0 3
     = Inr (example_three_runs\<lparr> m_merger := [[3, 5], [1, 4, 8]],
             m_runFiles := [[3, 5], [4, 8], [1], [1, 4, 8], [], []] \<rparr>)"
    unfolding initialize_final_merger_def Let_def ff
    by (simp add: size_t_sub_def size_t_range_def m [simplified] ff)
       (simp add: example_three_runs_def open_run_file_read_eq calculate_run_length_mod
          size_t_mul_def size_t_range_def merger_reset_def)
  have h2: "0 < finalFanout (p example_three_runs)"
    and h3: "finalFanout (p example_three_runs) < size_t_range"
    and h4: "(3::nat) < size_t_range"
    and h5: "finalFanout (p example_three_runs) < 3"
    by (simp_all add: example_three_runs_def size_t_range_def)
  from final_merger_setup [OF h1 h2 h3 h4, THEN conjunct2, rule_format, OF h5]
  have "length (m_merger (example_three_runs\<lparr> m_merger := [[3, 5], [1, 4, 8]],
             m_runFiles := [[3, 5], [4, 8], [1], [1, 4, 8], [], []] \<rparr>))
       = finalFanout (p example_three_runs)"
    by blast
  with h1 h2 h3 h4 h5 show ?thesis by blast
qed

subsection \<open>Phase 3: the merge rounds\<close>

lemma merge_runs_p:
  "merge_runs s L rn rc = Inr (s', nextRun) \<Longrightarrow> p s' = p s"
  by (drule merge_runs_Inr(4)) simp

lemma merge_groups_p:
  "merge_groups s L runCount groups = Inr s' \<Longrightarrow> p s' = p s"
proof (induction groups arbitrary: s)
  case Nil
  then show ?case by simp
next
  case (Cons i groups)
  then obtain s1 w where
    m: "merge_runs s L (i * fanout (p s)) (min (runCount - i * fanout (p s)) (fanout (p s)))
        = Inr (s1, w)"
    and r: "merge_groups s1 L runCount groups = Inr s'"
    by (auto simp: bind_err_eq_Inr)
  from Cons.IH [OF r] merge_runs_p [OF m] show ?case by simp
qed

lemma group_count_bounds:
  fixes f n :: nat
  assumes "0 < f"
  shows "n \<le> ((n + f - 1) div f) * f"
    and "j < (n + f - 1) div f \<Longrightarrow> j * f < n"
proof -
  let ?G = "(n + f - 1) div f"
  have "n + f - 1 < (?G + 1) * f"
    using assms dividend_less_div_times [of f "n + f - 1"] by (simp add: algebra_simps)
  then show "n \<le> ?G * f"
    using assms by (simp add: algebra_simps)
  assume j: "j < ?G"
  then have "j + 1 \<le> ?G" by simp
  then have "(j + 1) * f \<le> ?G * f" by (rule mult_le_mono1)
  also have "\<dots> \<le> n + f - 1" by simp
  finally show "j * f < n" using assms by (simp add: algebra_simps)
qed

text \<open>One round of the inner loop of \<^verbatim>\<open>prepare_pull\<close> merges the groups in order.\<close>

lemma merge_level_loop_from:
  assumes "0 < fanout (p s)" "G = (runCount + fanout (p s) - 1) div fanout (p s)" "j \<le> G"
  shows "merge_level_loop s L runCount (j * fanout (p s)) j =
           bind_err (merge_groups s L runCount [j..<G]) (\<lambda>s'. Inr (s', G))"
  using assms
proof (induction "G - j" arbitrary: s j)
  case 0
  let ?f = "fanout (p s)"
  from 0 have j: "j = G" by simp
  with group_count_bounds(1) [OF "0.prems"(1), of runCount] "0.prems"(2)
  have "\<not> j * ?f < runCount" by simp
  then show ?case
    by (subst merge_level_loop.simps) (simp add: j)
next
  case (Suc k)
  let ?f = "fanout (p s)"
  from Suc(2) have j: "j < G" by simp
  then have lt: "j * ?f < runCount"
    using group_count_bounds(2) [OF Suc.prems(1)] Suc.prems(2) by simp
  have upt: "[j..<G] = j # [j + 1..<G]"
    using j by (simp add: upt_rec)
  show ?case
  proof (cases "merge_runs s L (j * ?f) (min (runCount - j * ?f) ?f)")
    case (Inl e)
    with lt show ?thesis
      by (subst merge_level_loop.simps) (simp add: upt Let_def)
  next
    case (Inr r)
    obtain s1 w where r: "r = (s1, w)" by (cases r)
    from merge_runs_p Inr r have ps: "p s1 = p s" by metis
    have "merge_level_loop s1 L runCount ((j + 1) * fanout (p s1)) (j + 1) =
            bind_err (merge_groups s1 L runCount [j + 1..<G]) (\<lambda>s'. Inr (s', G))"
      using Suc(2) Suc.prems j by (intro Suc(1)) (simp_all add: ps)
    then have ih: "merge_level_loop s1 L runCount (j * ?f + ?f) (j + 1) =
            bind_err (merge_groups s1 L runCount [j + 1..<G]) (\<lambda>s'. Inr (s', G))"
      by (simp add: ps algebra_simps)
    from lt Inr r ih show ?thesis
      by (subst merge_level_loop.simps) (simp add: upt Let_def)
  qed
qed

lemma merge_level_loop_groups:
  assumes "0 < fanout (p s)"
  shows "merge_level_loop s L runCount 0 0 =
           bind_err (merge_groups s L runCount
                       [0..<(runCount + fanout (p s) - 1) div fanout (p s)])
             (\<lambda>s'. Inr (s', (runCount + fanout (p s) - 1) div fanout (p s)))"
  using merge_level_loop_from [OF assms refl, of 0 runCount L] by simp

lemma merge_level_loop_Inr:
  assumes "0 < fanout (p s)" "merge_level_loop s L runCount 0 0 = Inr (s', newRunCount)"
  shows "newRunCount = (runCount + fanout (p s) - 1) div fanout (p s)" and "p s' = p s"
    and "merge_groups s L runCount [0..<newRunCount] = Inr s'"
  using assms(2) merge_groups_p [of s L runCount _ s']
  unfolding merge_level_loop_groups [OF assms(1)]
  by (auto simp: bind_err_eq_Inr)

lemma prepare_pull_loop_terminates:
  assumes "2 \<le> fanout (p s)"
  shows "\<exists>res. prepare_pull_loop s L runCount = Some res
           \<and> (\<forall>s' L' n'. res = Inr (s', L', n') \<longrightarrow> n' \<le> fanout (p s) \<and> p s' = p s)"
  using assms
proof (induction runCount arbitrary: s L rule: less_induct)
  case (less runCount)
  let ?f = "fanout (p s)"
  show ?case
  proof (cases "runCount > ?f")
    case False
    then show ?thesis
      by (subst prepare_pull_loop.simps) simp
  next
    case True
    show ?thesis
    proof (cases "merge_level_loop s L runCount 0 0")
      case (Inl e)
      with True show ?thesis
        by (subst prepare_pull_loop.simps) simp
    next
      case (Inr r)
      obtain s1 n1 where r: "r = (s1, n1)" by (cases r)
      from less.prems have f0: "0 < ?f" by simp
      from merge_level_loop_Inr [OF f0 Inr [unfolded r]]
      have n1: "n1 = (runCount + ?f - 1) div ?f" and ps: "p s1 = p s"
        by simp_all
      have "n1 < runCount"
      proof -
        have "runCount + ?f - 1 < runCount * ?f"
        proof -
          have "runCount + ?f \<le> 2 * runCount" using True by simp
          also have "\<dots> \<le> runCount * ?f" using less.prems by simp
          finally show ?thesis using True by simp
        qed
        then show ?thesis
          unfolding n1 using f0 by (simp add: less_mult_imp_div_less)
      qed
      from less.IH [OF this, of s1 "L + 1"] less.prems ps
      have ih: "\<exists>res. prepare_pull_loop s1 (L + 1) n1 = Some res
        \<and> (\<forall>s' L' n'. res = Inr (s', L', n') \<longrightarrow> n' \<le> ?f \<and> p s' = p s)"
        by simp
      have "prepare_pull_loop s L runCount = prepare_pull_loop s1 (L + 1) n1"
        using True Inr r by (subst prepare_pull_loop.simps) simp
      with ih show ?thesis by simp
    qed
  qed
qed

text \<open>
  C5. For a fanout of at least 2 (the parameter calculation never yields less):
  \<^item> one round over the \<open>runCount\<close> runs of level \<open>L\<close> is the merge of the groups
    \<open>0, 1, \<dots>\<close> in order, group \<open>i\<close> being the \<open>min (runCount - i * fanout) fanout\<close> runs from
    run \<open>i * fanout\<close> on, and there are \<open>\<lceil>runCount / fanout\<rceil>\<close> groups;
  \<^item> the merge of group \<open>i\<close> is nextRun as run \<open>i\<close> of level \<open>L + 1\<close>;
  \<^item> the outer loop makes such a round and goes on with the next level as long as the run
    count exceeds the fanout, and stops otherwise;
  \<^item> the outer loop terminates, and when it returns a run count, that count is at most the
    fanout.
\<close>

theorem phase3_groups_and_termination:
  assumes "2 \<le> fanout (p s)"
  shows "merge_level_loop s L runCount 0 0 =
           bind_err (merge_groups s L runCount
                       [0..<(runCount + fanout (p s) - 1) div fanout (p s)])
             (\<lambda>s'. Inr (s', (runCount + fanout (p s) - 1) div fanout (p s)))
       \<and> (\<forall>i n s1 s2 nextRun.
             merge_runs s1 L (i * fanout (p s)) n = Inr (s2, nextRun) \<and> p s1 = p s \<longrightarrow>
             nextRun = i)
       \<and> (fanout (p s) < runCount \<longrightarrow>
             prepare_pull_loop s L runCount =
               (case merge_level_loop s L runCount 0 0 of
                  Inl e \<Rightarrow> Some (Inl e)
                | Inr (s', newRunCount) \<Rightarrow> prepare_pull_loop s' (L + 1) newRunCount))
       \<and> (runCount \<le> fanout (p s) \<longrightarrow>
             prepare_pull_loop s L runCount = Some (Inr (s, L, runCount)))
       \<and> (\<exists>res. prepare_pull_loop s L runCount = Some res
              \<and> (\<forall>s' L' n'. res = Inr (s', L', n') \<longrightarrow> n' \<le> fanout (p s)))"
proof (intro conjI)
  from assms have f0: "0 < fanout (p s)" by simp
  show "merge_level_loop s L runCount 0 0 =
           bind_err (merge_groups s L runCount
                       [0..<(runCount + fanout (p s) - 1) div fanout (p s)])
             (\<lambda>s'. Inr (s', (runCount + fanout (p s) - 1) div fanout (p s)))"
    using f0 by (rule merge_level_loop_groups)
  show "\<forall>i n s1 s2 nextRun.
             merge_runs s1 L (i * fanout (p s)) n = Inr (s2, nextRun) \<and> p s1 = p s \<longrightarrow>
             nextRun = i"
    using f0 by (auto dest!: merge_runs_Inr(1))
  show "fanout (p s) < runCount \<longrightarrow>
             prepare_pull_loop s L runCount =
               (case merge_level_loop s L runCount 0 0 of
                  Inl e \<Rightarrow> Some (Inl e)
                | Inr (s', newRunCount) \<Rightarrow> prepare_pull_loop s' (L + 1) newRunCount)"
    by (subst prepare_pull_loop.simps) simp
  show "runCount \<le> fanout (p s) \<longrightarrow>
             prepare_pull_loop s L runCount = Some (Inr (s, L, runCount))"
    by (subst prepare_pull_loop.simps) simp
  show "\<exists>res. prepare_pull_loop s L runCount = Some res
              \<and> (\<forall>s' L' n'. res = Inr (s', L', n') \<longrightarrow> n' \<le> fanout (p s))"
    using prepare_pull_loop_terminates [OF assms, of L runCount] by blast
qed

theorem phase3_groups_and_termination_witness:
  "2 \<le> fanout (p example_two_way)
   \<and> merge_level_loop example_two_way 0 3 0 0
       = Inr (example_two_way\<lparr> m_runFiles := [[3, 5, 1], [4, 8], [3, 4, 5, 8], [1]] \<rparr>, 2)
   \<and> prepare_pull_loop example_two_way 0 3
       = Some (Inr (example_two_way\<lparr> m_runFiles := [[3, 5, 1], [4, 8], [3, 4, 5, 8], [1]] \<rparr>,
                    1, 2))"
proof -
  let ?s1 = "example_two_way\<lparr> m_runFiles := [[3, 5, 1], [4, 8], [3, 4, 5, 8], []] \<rparr>"
  let ?s2 = "example_two_way\<lparr> m_runFiles := [[3, 5, 1], [4, 8], [3, 4, 5, 8], [1]] \<rparr>"
  have h: "2 \<le> fanout (p example_two_way)"
    by (simp add: example_two_way_def)
  have h2: "2 \<le> fanout (p ?s2)"
    by (simp add: example_two_way_def)
  have d1: "merger_drain [[3, 5], [4, 8::nat]] = [3, 4, 5, 8]" by code_simp
  have c1: "merger_can_pull [[3, 5], [4, 8::nat]]" by code_simp
  have d2: "merger_drain [[1::nat]] = [1]" by code_simp
  have c2: "merger_can_pull [[1::nat]]" by code_simp
  have m1: "merge_runs example_two_way 0 0 2 = Inr (?s1, 0)"
    by (simp add: merge_runs_def initialize_merger_def example_two_way_def
          open_run_file_read_eq open_run_file_write_eq merge_write_loop_eq
          calculate_run_length_mod size_t_mul_def size_t_range_def merger_reset_def
          upt_rec fs_write_def Let_def d1 c1)
  have m2: "merge_runs ?s1 0 2 1 = Inr (?s2, 1)"
    by (simp add: merge_runs_def initialize_merger_def example_two_way_def
          open_run_file_read_eq open_run_file_write_eq merge_write_loop_eq
          calculate_run_length_mod size_t_mul_def size_t_range_def merger_reset_def
          upt_rec fs_write_def Let_def d2 [simplified] c2 [simplified])
  have f: "fanout (p example_two_way) = 2"
    by (simp add: example_two_way_def)
  have g: "merge_groups example_two_way 0 3 [0..<2] = Inr ?s2"
    using m1 m2 by (simp add: upt_rec f)
  from phase3_groups_and_termination [OF h, of 0 3, THEN conjunct1] g
  have round: "merge_level_loop example_two_way 0 3 0 0 = Inr (?s2, 2)"
    by (simp add: f)
  from phase3_groups_and_termination
         [OF h, of 0 3, THEN conjunct2, THEN conjunct2, THEN conjunct1] round
  have "prepare_pull_loop example_two_way 0 3 = prepare_pull_loop ?s2 1 2"
    by (simp add: f)
  also from phase3_groups_and_termination
         [OF h2, of 1 2, THEN conjunct2, THEN conjunct2, THEN conjunct2, THEN conjunct1]
  have "prepare_pull_loop ?s2 1 2 = Some (Inr (?s2, 1, 2))"
    by (simp add: f)
  finally show ?thesis using h round by simp
qed

subsection \<open>The layout of the runs of a level\<close>

lemma file_of_Nil [simp]: "file_of [] f j = []"
  by (simp add: file_of_def)

lemma file_of_snoc:
  "file_of (runs @ [x]) f j =
     (if length runs mod f = j then file_of runs f j @ x else file_of runs f j)"
proof -
  have eq: "map (\<lambda>r. (runs @ [x]) ! r) (filter (\<lambda>r. r mod f = j) [0..<length runs])
        = map (\<lambda>r. runs ! r) (filter (\<lambda>r. r mod f = j) [0..<length runs])"
    by (rule map_cong) (auto simp: nth_append)
  show ?thesis
    unfolding file_of_def by (simp add: eq)
qed

lemma length_file_of_le: "length (file_of runs f j) \<le> length (concat runs)"
  by (induction runs rule: rev_induct) (auto simp: file_of_snoc)

lemma regular_snoc:
  "regular RL (runs @ [x]) \<longleftrightarrow> (\<forall>r\<in>set runs. length r = RL) \<and> length x \<le> RL"
proof
  assume r: "regular RL (runs @ [x])"
  have "length y = RL" if "y \<in> set runs" for y
  proof -
    from that obtain i where i: "i < length runs" "runs ! i = y"
      by (auto simp: in_set_conv_nth)
    with r have "length ((runs @ [x]) ! i) = RL"
      by (simp add: regular_def)
    with i show ?thesis by (simp add: nth_append)
  qed
  moreover from r [unfolded regular_def, rule_format, of "length runs"]
  have "length x \<le> RL"
    by simp
  ultimately show "(\<forall>r\<in>set runs. length r = RL) \<and> length x \<le> RL"
    by simp
next
  assume "(\<forall>r\<in>set runs. length r = RL) \<and> length x \<le> RL"
  then show "regular RL (runs @ [x])"
    by (auto simp: regular_def nth_append)
qed

lemma regular_Nil [simp]: "regular RL []"
  by (simp add: regular_def)

lemma count_step:
  fixes n f j :: nat
  assumes "j < f"
  shows "(Suc n + f - 1 - j) div f = (n + f - 1 - j) div f + (if n mod f = j then 1 else 0)"
proof -
  let ?a = "n + f - 1 - j"
  have a: "Suc n + f - 1 - j = Suc ?a"
    using assms by simp
  have "Suc ?a mod f = 0 \<longleftrightarrow> n mod f = j"
  proof -
    have "Suc ?a = n + (f - j)" using assms by simp
    then have "Suc ?a mod f = (n mod f + (f - j)) mod f"
      by (simp add: mod_add_left_eq)
    moreover have "(n mod f + (f - j)) mod f = 0 \<longleftrightarrow> n mod f = j"
    proof
      assume z: "(n mod f + (f - j)) mod f = 0"
      have lt: "n mod f < f" using assms by simp
      define y where "y = n mod f + (f - j)"
      have y: "0 < y" "y < 2 * f"
        using lt assms unfolding y_def by linarith+
      from z have "f dvd y"
        by (simp add: y_def dvd_eq_mod_eq_0)
      then obtain k where k: "y = f * k" ..
      with y have "0 < k" "k < 2"
        using assms by simp_all
      then have "k = 1" by simp
      with k have "n mod f + (f - j) = f"
        by (simp add: y_def)
      then show "n mod f = j" using assms by simp
    next
      assume "n mod f = j"
      then show "(n mod f + (f - j)) mod f = 0" using assms by simp
    qed
    ultimately show ?thesis by simp
  qed
  then show ?thesis
    unfolding a by (simp add: div_Suc)
qed

text \<open>The length of a file of runs that all have the run length.\<close>

lemma length_file_of_full:
  assumes "\<forall>r\<in>set runs. length r = RL" "j < f"
  shows "length (file_of runs f j) = RL * ((length runs + f - 1 - j) div f)"
  using assms(1)
proof (induction runs rule: rev_induct)
  case Nil
  from assms(2) show ?case by simp
next
  case (snoc x runs)
  then have ih: "length (file_of runs f j) = RL * ((length runs + f - 1 - j) div f)"
    and x: "length x = RL"
    by simp_all
  show ?case
    using ih x count_step [OF assms(2), of "length runs"]
    by (simp add: file_of_snoc algebra_simps)
qed

lemma length_file_of_next:
  assumes "\<forall>r\<in>set runs. length r = RL" "0 < f"
  shows "length (file_of runs f (length runs mod f)) = RL * (length runs div f)"
proof -
  let ?n = "length runs"
  have "(?n + f - 1 - ?n mod f) div f = ?n div f"
  proof -
    have e: "?n + f - 1 - ?n mod f = (f - 1) + f * (?n div f)"
      using assms(2) by (simp add: minus_mod_eq_mult_div [symmetric] algebra_simps)
    have "((f - 1) + f * (?n div f)) div f = ?n div f + (f - 1) div f"
      using assms(2) by (subst div_mult_self2) simp_all
    also have "(f - 1) div f = 0"
      using assms(2) by simp
    finally show ?thesis
      unfolding e by simp
  qed
  with length_file_of_full [OF assms(1), of "?n mod f" f] assms(2) show ?thesis
    by simp
qed

text \<open>Reading back: run \<open>r\<close> is found in its file at offset \<open>RL * (r div f)\<close>.\<close>

lemma file_of_read:
  assumes "regular RL runs" "0 < f" "r < length runs"
  shows "take RL (drop (RL * (r div f)) (file_of runs f (r mod f))) = runs ! r
       \<and> RL * (r div f) + length (runs ! r) \<le> length (file_of runs f (r mod f))"
  using assms(1,3)
proof (induction runs rule: rev_induct)
  case Nil
  then show ?case by simp
next
  case (snoc x runs)
  from snoc.prems(1) have full: "\<forall>y\<in>set runs. length y = RL" and x: "length x \<le> RL"
    by (simp_all add: regular_snoc)
  show ?case
  proof (cases "r < length runs")
    case True
    have "regular RL runs"
      using full by (auto simp: regular_def)
    from snoc.IH [OF this True]
    have ih: "take RL (drop (RL * (r div f)) (file_of runs f (r mod f))) = runs ! r"
      and len: "RL * (r div f) + length (runs ! r) \<le> length (file_of runs f (r mod f))"
      by simp_all
    from full True have lr: "length (runs ! r) = RL" by simp
    have "take RL (drop (RL * (r div f)) (file_of runs f (r mod f) @ x))
          = take RL (drop (RL * (r div f)) (file_of runs f (r mod f)))"
      using len lr by simp
    with ih len True show ?thesis
      by (auto simp: file_of_snoc nth_append)
  next
    case False
    with snoc.prems(2) have r: "r = length runs" by simp
    have "length (file_of runs f (r mod f)) = RL * (r div f)"
      unfolding r using full assms(2) by (rule length_file_of_next)
    with x show ?thesis
      by (simp add: file_of_snoc r)
  qed
qed

lemma file_of_single:
  assumes "length runs \<le> f"
  shows "file_of runs f j = (if j < length runs then runs ! j else [])"
  using assms
proof (induction runs rule: rev_induct)
  case Nil
  then show ?case by simp
next
  case (snoc x runs)
  then have ih: "file_of runs f j = (if j < length runs then runs ! j else [])"
    and lt: "length runs < f"
    by simp_all
  from lt show ?case
    by (auto simp: file_of_snoc ih nth_append)
qed

text \<open>Appending the next run to its file keeps the runs stored.\<close>

lemma stored_append:
  assumes "stored prm files L runs" "0 < fanout prm"
  defines "idx \<equiv> (L mod 2) * fanout prm + length runs mod fanout prm"
  shows "stored prm
           (files[idx := (if length runs < fanout prm then [] else files ! idx) @ x])
           L (runs @ [x])"
proof -
  let ?f = "fanout prm"
  let ?k = "length runs"
  let ?files' = "files[idx := (if ?k < ?f then [] else files ! idx) @ x]"
  from assms(1) have len: "length files = ?f * 2"
    and st: "\<And>j. j < ?f \<Longrightarrow> j < ?k \<Longrightarrow> files ! ((L mod 2) * ?f + j) = file_of runs ?f j"
    by (simp_all add: stored_def)
  have idx: "idx < length files"
  proof -
    have "?k mod ?f < ?f" using assms(2) by simp
    moreover have "L mod 2 \<le> 1" by simp
    then have "(L mod 2) * ?f \<le> ?f" by (metis mult_le_mono1 nat_mult_1)
    ultimately show ?thesis unfolding idx_def len by linarith
  qed
  have "?files' ! ((L mod 2) * ?f + j) = file_of (runs @ [x]) ?f j"
    if j: "j < ?f" "j < Suc ?k" for j
  proof (cases "j = ?k mod ?f")
    case True
    then have at: "(L mod 2) * ?f + j = idx" by (simp add: idx_def)
    have val: "?files' ! idx = (if ?k < ?f then [] else files ! idx) @ x"
      using idx by simp
    have snoc: "file_of (runs @ [x]) ?f j = file_of runs ?f j @ x"
      using True by (simp add: file_of_snoc)
    show ?thesis
    proof (cases "?k < ?f")
      case k: True
      then have "j = ?k" using True by simp
      then have "file_of runs ?f j = []"
        using k by (simp add: file_of_single)
      with k show ?thesis
        unfolding at val snoc by simp
    next
      case k: False
      with j have "j < ?k" by simp
      from st [OF j(1) this] k show ?thesis
        unfolding at [symmetric] val [unfolded at [symmetric]] snoc by simp
    qed
  next
    case False
    then have ne: "(L mod 2) * ?f + j \<noteq> idx" by (simp add: idx_def)
    have "j < ?k"
    proof (cases "?k < ?f")
      case True
      with False j show ?thesis by simp
    next
      case False
      with j show ?thesis by simp
    qed
    from st [OF j(1) this] ne False show ?thesis
      by (simp add: file_of_snoc)
  qed
  with len show ?thesis
    by (simp add: stored_def)
qed

lemma stored_other_bank:
  assumes "stored prm files L runs" "length files' = length files"
      and "\<And>j. j < fanout prm \<Longrightarrow> files' ! ((L mod 2) * fanout prm + j)
                                     = files ! ((L mod 2) * fanout prm + j)"
  shows "stored prm files' L runs"
  using assms by (simp add: stored_def)

lemma stored_Nil: "stored prm files L [] \<longleftrightarrow> length files = fanout prm * 2"
  by (simp add: stored_def)

lemma stored_length: "stored prm files L runs \<Longrightarrow> length files = fanout prm * 2"
  by (simp add: stored_def)

lemma bank_index:
  assumes "length files = fanout prm * 2" "j < fanout prm"
  shows "(L mod 2) * fanout prm + j < length files"
proof -
  have "L mod 2 \<le> 1" by simp
  then have "(L mod 2) * fanout prm \<le> fanout prm"
    by (metis mult_le_mono1 nat_mult_1)
  with assms show ?thesis by linarith
qed

text \<open>Writing one more run after the runs stored.\<close>

lemma write_run_stored:
  assumes "stored prm files L runs" "0 < fanout prm"
  shows "\<exists>opened. open_run_file_write prm files L (length runs) = Inr opened
           \<and> stored prm (fst (foldl fs_write opened x)) L (runs @ [x])
           \<and> length (fst (foldl fs_write opened x)) = length files
           \<and> (\<forall>i. i \<noteq> (L mod 2) * fanout prm + length runs mod fanout prm \<longrightarrow>
                  fst (foldl fs_write opened x) ! i = files ! i)"
proof -
  let ?idx = "(L mod 2) * fanout prm + length runs mod fanout prm"
  have idx: "?idx < length files"
    using assms by (intro bank_index) (simp_all add: stored_length)
  with assms(2) obtain opened where
    op: "open_run_file_write prm files L (length runs) = Inr opened"
    by (simp add: open_run_file_write_eq)
  note w = write_run_files [OF op, of x]
  from stored_append [OF assms, of x]
  have "stored prm (fst (foldl fs_write opened x)) L (runs @ [x])"
    by (simp add: w)
  with op show ?thesis
    by (simp add: w)
qed

lemma write_runs_stored:
  assumes "0 < fanout prm"
  shows "stored prm files L runs0 \<Longrightarrow>
         \<exists>files'. write_runs prm files L (length runs0) runs = Inr files'
                 \<and> stored prm files' L (runs0 @ runs)"
proof (induction runs arbitrary: files runs0)
  case Nil
  then show ?case by simp
next
  case (Cons x runs)
  from write_run_stored [OF Cons.prems assms, of x] obtain opened where
    op: "open_run_file_write prm files L (length runs0) = Inr opened"
    and st: "stored prm (fst (foldl fs_write opened x)) L (runs0 @ [x])"
    by blast
  from Cons.IH [OF st] op show ?case
    by simp
qed

text \<open>Reading a stored run back.\<close>

lemma stored_run_items:
  assumes "stored prm files L runs" "0 < fanout prm"
      and "regular (calculate_run_length (runLength prm) (fanout prm) L) runs"
      and "r < length runs" "length (concat runs) < size_t_range"
  shows "readable prm files L r"
    and "run_items prm files L r (calculate_run_length (runLength prm) (fanout prm) L) = runs ! r"
    and "size_t_mul (calculate_run_length (runLength prm) (fanout prm) L) (r div fanout prm)
           = calculate_run_length (runLength prm) (fanout prm) L * (r div fanout prm)"
proof -
  let ?f = "fanout prm"
  let ?RL = "calculate_run_length (runLength prm) ?f L"
  let ?idx = "(L mod 2) * ?f + r mod ?f"
  have j: "r mod ?f < ?f" "r mod ?f < length runs"
    using assms(2,4) by (simp_all add: mod_le_divisor less_le_trans [OF _ ] le_less_trans [OF mod_less_eq_dividend])
  from assms(1) j have fl: "files ! ?idx = file_of runs ?f (r mod ?f)"
    by (simp add: stored_def)
  from file_of_read [OF assms(3,2,4)]
  have rd: "take ?RL (drop (?RL * (r div ?f)) (file_of runs ?f (r mod ?f))) = runs ! r"
    and le: "?RL * (r div ?f) + length (runs ! r) \<le> length (file_of runs ?f (r mod ?f))"
    by simp_all
  from le length_file_of_le [of runs ?f "r mod ?f"] assms(5)
  have "?RL * (r div ?f) < size_t_range"
    by linarith
  then show mul: "size_t_mul ?RL (r div ?f) = ?RL * (r div ?f)"
    by (simp add: size_t_mul_def)
  have "?idx < length files"
    using assms(1) j(1) by (intro bank_index) (simp_all add: stored_length)
  with le assms(2) show "readable prm files L r"
    by (simp add: readable_def mul fl)
  show "run_items prm files L r ?RL = runs ! r"
    by (simp add: run_items_def mul fl rd)
qed

text \<open>When the level has at most \<open>fanout\<close> runs, each file holds one run.\<close>

lemma stored_run_items_single:
  assumes "stored prm files L runs" "0 < fanout prm"
      and "length runs \<le> fanout prm" "r < length runs" "length (runs ! r) \<le> limit"
  shows "readable prm files L r"
    and "run_items prm files L r limit = runs ! r"
proof -
  let ?f = "fanout prm"
  from assms(3,4) have r: "r < ?f" by simp
  then have dm: "r div ?f = 0" "r mod ?f = r" by simp_all
  from assms(1) r assms(4) have "files ! ((L mod 2) * ?f + r) = file_of runs ?f r"
    by (simp add: stored_def)
  with assms(3,4) have fl: "files ! ((L mod 2) * ?f + r) = runs ! r"
    by (simp add: file_of_single)
  have "(L mod 2) * ?f + r < length files"
    using assms(1) r by (intro bank_index) (simp_all add: stored_length)
  with assms(2) show "readable prm files L r"
    by (simp add: readable_def dm size_t_mul_def)
  show "run_items prm files L r limit = runs ! r"
    using assms(5) by (simp add: run_items_def dm size_t_mul_def fl)
qed

text \<open>
  C3. Run \<open>r\<close> of merge level \<open>L\<close> is stored in the temp file with index
  \<open>(L mod 2) * fanout + r mod fanout\<close>, at item offset \<open>run_length L * (r div fanout)\<close> inside
  that file: when the runs of the level are written in the order of their run numbers, all
  but the last of them \<open>run_length L\<close> items long, the items of run \<open>r\<close> are found in that
  file from that offset on, and this is the position of the reader opened on the run. The
  fanout is not zero, there are \<open>2 * fanout\<close> temp files, and the items of the level are
  fewer than \<open>2 ^ 64\<close>.
\<close>

theorem run_stored_at_div_offset:
  assumes "0 < fanout prm" "length files = fanout prm * 2"
      and "regular (calculate_run_length (runLength prm) (fanout prm) L) runs"
      and "r < length runs" "length (concat runs) < size_t_range"
  shows "\<exists>files'. write_runs prm files L 0 runs = Inr files'
           \<and> run_file_index prm L r = Inr ((L mod 2) * fanout prm + r mod fanout prm)
           \<and> take (length (runs ! r))
                (drop (calculate_run_length (runLength prm) (fanout prm) L * (r div fanout prm))
                   (files' ! ((L mod 2) * fanout prm + r mod fanout prm))) = runs ! r
           \<and> open_run_file_read prm files' L r =
               Inr \<lparr> fs_file = (L mod 2) * fanout prm + r mod fanout prm,
                     fs_pos = calculate_run_length (runLength prm) (fanout prm) L
                                * (r div fanout prm) \<rparr>"
proof -
  let ?f = "fanout prm"
  let ?RL = "calculate_run_length (runLength prm) ?f L"
  let ?idx = "(L mod 2) * ?f + r mod ?f"
  from assms(2) have "stored prm files L []"
    by (simp add: stored_Nil)
  from write_runs_stored [OF assms(1) this, of runs] obtain files' where
    w: "write_runs prm files L 0 runs = Inr files'" and st: "stored prm files' L runs"
    by auto
  note rd = stored_run_items [OF st assms(1,3,4,5)]
  from assms(3,4) have len: "length (runs ! r) \<le> ?RL"
    by (simp add: regular_def)
  have "take (length (runs ! r)) (drop (?RL * (r div ?f)) (files' ! ?idx))
        = take (length (runs ! r)) (take ?RL (drop (?RL * (r div ?f)) (files' ! ?idx)))"
    using len by (simp add: min_absorb1)
  also have "take ?RL (drop (?RL * (r div ?f)) (files' ! ?idx)) = runs ! r"
    using rd(2) by (simp add: run_items_def rd(3))
  finally have items: "take (length (runs ! r)) (drop (?RL * (r div ?f)) (files' ! ?idx)) = runs ! r"
    by simp
  have idx: "run_file_index prm L r = Inr ?idx"
    using assms(1) by (simp add: run_file_index_def)
  have "open_run_file_read prm files' L r = Inr \<lparr> fs_file = ?idx, fs_pos = ?RL * (r div ?f) \<rparr>"
    using rd(1) by (simp add: open_run_file_read_eq readable_def rd(3))
  with w idx items show ?thesis
    by blast
qed

theorem run_stored_at_div_offset_witness:
  "write_runs example_parameters [[], [], [], [], [], []] 0 0
       [[3, 5], [4, 8], [1, 9], [2, 7], [6::nat]]
     = Inr [[3, 5, 2, 7], [4, 8, 6], [1, 9], [], [], []]
   \<and> run_file_index example_parameters 0 3 = Inr 0
   \<and> take 2 (drop (calculate_run_length (runLength example_parameters)
                      (fanout example_parameters) 0 * (3 div fanout example_parameters))
                ([[3, 5, 2, 7], [4, 8, 6], [1, 9], [], [], []] ! 0)) = [2, 7::nat]
   \<and> open_run_file_read example_parameters
       [[3, 5, 2, 7], [4, 8, 6], [1, 9], [], [], []::nat list] 0 3
       = Inr \<lparr> fs_file = 0, fs_pos = 2 \<rparr>"
proof -
  let ?runs = "[[3, 5], [4, 8], [1, 9], [2, 7], [6::nat]]"
  have rl: "calculate_run_length (runLength example_parameters) (fanout example_parameters) 0 = 2"
    by (simp add: calculate_run_length_mod example_parameters_def size_t_range_def)
  have h1: "0 < fanout example_parameters"
    and h2: "length [[], [], [], [], [], []::nat list] = fanout example_parameters * 2"
    by (simp_all add: example_parameters_def)
  have h3: "regular (calculate_run_length (runLength example_parameters)
                       (fanout example_parameters) 0) ?runs"
    unfolding rl by (simp add: regular_def All_less_Suc numeral_eq_Suc)
  have h4: "3 < length ?runs" and h5: "length (concat ?runs) < size_t_range"
    by (simp_all add: size_t_range_def)
  have w: "write_runs example_parameters [[], [], [], [], [], []] 0 0 ?runs
             = Inr [[3, 5, 2, 7], [4, 8, 6], [1, 9], [], [], []]"
    by (simp add: open_run_file_write_eq example_parameters_def fs_write_def Let_def)
  from run_stored_at_div_offset [OF h1 h2 h3 h4 h5] obtain files' where
    a: "write_runs example_parameters [[], [], [], [], [], []] 0 0 ?runs = Inr files'"
    and b: "run_file_index example_parameters 0 3
              = Inr ((0 mod 2) * fanout example_parameters + 3 mod fanout example_parameters)"
    and c: "take (length (?runs ! 3))
              (drop (calculate_run_length (runLength example_parameters)
                       (fanout example_parameters) 0 * (3 div fanout example_parameters))
                 (files' ! ((0 mod 2) * fanout example_parameters
                              + 3 mod fanout example_parameters))) = ?runs ! 3"
    and d: "open_run_file_read example_parameters files' 0 3 =
              Inr \<lparr> fs_file = (0 mod 2) * fanout example_parameters
                                 + 3 mod fanout example_parameters,
                    fs_pos = calculate_run_length (runLength example_parameters)
                               (fanout example_parameters) 0
                               * (3 div fanout example_parameters) \<rparr>"
    by blast
  from a [unfolded w] have eq: "files' = [[3, 5, 2, 7], [4, 8, 6], [1, 9], [], [], []]"
    by simp
  have i: "(0 mod 2) * fanout example_parameters + 3 mod fanout example_parameters = 0"
    by (simp add: example_parameters_def)
  have b': "run_file_index example_parameters 0 3 = Inr 0"
    using b unfolding i .
  have c': "take 2 (drop (calculate_run_length (runLength example_parameters)
                      (fanout example_parameters) 0 * (3 div fanout example_parameters))
                ([[3, 5, 2, 7], [4, 8, 6], [1, 9], [], [], []] ! 0)) = [2, 7::nat]"
    using c unfolding i eq by (simp add: numeral_2_eq_2)
  have d': "open_run_file_read example_parameters
              [[3, 5, 2, 7], [4, 8, 6], [1, 9], [], [], []::nat list] 0 3
            = Inr \<lparr> fs_file = 0, fs_pos = 2 \<rparr>"
    using d unfolding i eq rl by (simp add: example_parameters_def)
  from w b' c' d' show ?thesis
    by (intro conjI)
qed

text \<open>
  The offset is not \<open>run_length L * (r mod fanout)\<close>: with run length 2 and fanout 3, run 1 of
  level 0 is at the start of file 1, where its reader is positioned, while offset
  \<open>2 * (1 mod 3)\<close> of that file is where run 4 begins.
\<close>

theorem run_offset_not_mod_counterexample:
  "write_runs example_parameters [[], [], [], [], [], []] 0 0
       [[3, 5], [4, 8], [1, 9], [2, 7], [6::nat]]
     = Inr [[3, 5, 2, 7], [4, 8, 6], [1, 9], [], [], []]
   \<and> run_file_index example_parameters 0 1 = Inr 1
   \<and> open_run_file_read example_parameters
       [[3, 5, 2, 7], [4, 8, 6], [1, 9], [], [], []::nat list] 0 1
       = Inr \<lparr> fs_file = 1, fs_pos = 0 \<rparr>
   \<and> calculate_run_length (runLength example_parameters) (fanout example_parameters) 0
       * (1 mod fanout example_parameters) = 2
   \<and> drop 2 ([[3, 5, 2, 7], [4, 8, 6], [1, 9], [], [], []] ! 1) = [6::nat]
   \<and> drop 0 ([[3, 5, 2, 7], [4, 8, 6], [1, 9], [], [], []] ! 1) = [4, 8, 6::nat]"
proof -
  have rl: "calculate_run_length 2 3 0 = 2"
    by (simp add: calculate_run_length_mod size_t_range_def)
  show ?thesis
    by (simp add: open_run_file_write_eq open_run_file_read_eq run_file_index_def
          example_parameters_def fs_write_def Let_def rl size_t_mul_def size_t_range_def)
qed

subsection \<open>Run formation\<close>

lemma push_run:
  assumes "run_formation prm s runs" "1 \<le> runLength prm" "0 < fanout prm"
  shows "\<exists>s' runs'. push x s = Inr s' \<and> run_formation prm s' runs'
           \<and> mset (concat runs') + mset (buffered s')
               = add_mset x (mset (concat runs) + mset (buffered s))"
proof -
  let ?items = "m_currentRunItems s"
  let ?count = "m_currentRunItemCount s"
  from assms(1) have prm: "p s = prm" and set: "m_parametersSet s"
    and len: "length ?items = runLength prm" and cnt: "?count \<le> runLength prm"
    and fin: "m_finishedRuns s = length runs" and st: "stored prm (m_runFiles s) 0 runs"
    and full: "\<forall>r\<in>set runs. length r = runLength prm \<and> sorted r"
    by (simp_all add: run_formation_def)
  show ?thesis
  proof (cases "?count < runLength prm")
    case True
    let ?s' = "s\<lparr> m_currentRunItems := ?items[?count := x],
                   m_currentRunItemCount := ?count + 1 \<rparr>"
    from True prm set len have push: "push x s = Inr ?s'"
      by (simp add: push_def tp_assert_def)
    have "take (Suc ?count) (?items[?count := x]) = take ?count ?items @ [x]"
      using True len by (simp add: take_Suc_conv_app_nth)
    then have "mset (buffered ?s') = add_mset x (mset (buffered s))"
      by (simp add: buffered_def)
    moreover have "run_formation prm ?s' runs"
      using assms(1) True by (simp add: run_formation_def)
    ultimately show ?thesis
      using push by (intro exI [of _ ?s'] exI [of _ runs]) simp
  next
    case False
    with cnt have eq: "?count = runLength prm" by simp
    let ?run = "sort ?items"
    let ?sa = "s\<lparr> m_currentRunItems := ?run \<rparr>"
    have sa: "sort_current_run s = Inr ?sa"
      using eq len by (simp add: sort_current_run_def)
    from write_run_stored [OF st assms(3), of ?run] obtain opened where
      op: "open_run_file_write prm (m_runFiles s) 0 (length runs) = Inr opened"
      and st': "stored prm (fst (foldl fs_write opened ?run)) 0 (runs @ [?run])"
      by blast
    let ?sb = "?sa\<lparr> m_runFiles := fst (foldl fs_write opened ?run),
                     m_currentRunItemCount := 0,
                     m_finishedRuns := length runs + 1 \<rparr>"
    have sb: "empty_current_run ?sa = Inr ?sb"
      using op eq len prm fin by (simp add: empty_current_run_Inr)
    let ?s' = "?sb\<lparr> m_currentRunItems := ?run[0 := x], m_currentRunItemCount := 1 \<rparr>"
    have push: "push x s = Inr ?s'"
      using sa sb eq prm set len assms(2) by (simp add: push_def tp_assert_def)
    have "length ?run = runLength prm"
      using len by simp
    then have "take (Suc 0) (?run[0 := x]) = [x]"
      using assms(2) by (cases ?run) simp_all
    then have buf: "mset (buffered ?s') = {#x#}"
      by (simp add: buffered_def)
    have old: "buffered s = ?items"
      using eq len by (simp add: buffered_def)
    have "run_formation prm ?s' (runs @ [?run])"
      using prm set len full st' assms(2) by (simp add: run_formation_def)
    moreover have "mset (concat (runs @ [?run])) + mset (buffered ?s')
                   = add_mset x (mset (concat runs) + mset (buffered s))"
      unfolding buf old by simp
    ultimately show ?thesis
      using push by (intro exI [of _ ?s'] exI [of _ "runs @ [?run]"]) simp
  qed
qed

lemma push_list_runs:
  assumes "1 \<le> runLength prm" "0 < fanout prm"
  shows "run_formation prm s runs \<Longrightarrow>
         \<exists>s' runs'. push_list xs s = Inr s' \<and> run_formation prm s' runs'
           \<and> mset (concat runs') + mset (buffered s')
               = mset xs + (mset (concat runs) + mset (buffered s))"
proof (induction xs arbitrary: s runs)
  case Nil
  then show ?case by auto
next
  case (Cons x xs)
  from push_run [OF Cons.prems assms, of x] obtain s1 runs1 where
    p1: "push x s = Inr s1" and f1: "run_formation prm s1 runs1"
    and m1: "mset (concat runs1) + mset (buffered s1)
               = add_mset x (mset (concat runs) + mset (buffered s))"
    by blast
  from Cons.IH [OF f1] obtain s' runs' where
    p2: "push_list xs s1 = Inr s'" and f2: "run_formation prm s' runs'"
    and m2: "mset (concat runs') + mset (buffered s')
               = mset xs + (mset (concat runs1) + mset (buffered s1))"
    by blast
  from p1 p2 have "push_list (x # xs) s = Inr s'" by simp
  moreover from m1 m2 have "mset (concat runs') + mset (buffered s')
               = mset (x # xs) + (mset (concat runs) + mset (buffered s))"
    by simp
  ultimately show ?case using f2 by blast
qed

lemma begin_sorter_run_formation:
  assumes "m_parametersSet s"
  shows "\<exists>s'. begin_sorter filler s = Inr s' \<and> run_formation (p s) s' [] \<and> buffered s' = []"
  using assms
  by (simp add: begin_sorter_def tp_assert_def run_formation_def buffered_def stored_Nil)

lemma end_sorter_cases:
  assumes "run_formation prm s runs" "0 < fanout prm"
      and "runLength prm * fanout prm < size_t_range"
      and "(length (concat runs) + length (buffered s)) * fanout prm < size_t_range"
  shows "(\<exists>s'. end_sorter s = Inr s' \<and> runs = []
              \<and> calc s' = Some (Inr (s'\<lparr> pull_prepared := True \<rparr>))
              \<and> pull_all (s'\<lparr> pull_prepared := True \<rparr>) = Inr (sort (buffered s)))
       \<or> (\<exists>s'. end_sorter s = Inr s' \<and> m_parametersSet s'
              \<and> m_finishedRuns s' = length runs + 1
              \<and> level_state prm s' 0 (runs @ [sort (buffered s)]))"
proof -
  let ?items = "m_currentRunItems s"
  let ?count = "m_currentRunItemCount s"
  let ?run = "sort (buffered s)"
  from assms(1) have prm: "p s = prm" and set: "m_parametersSet s"
    and len: "length ?items = runLength prm" and cnt: "?count \<le> runLength prm"
    and fin: "m_finishedRuns s = length runs" and st: "stored prm (m_runFiles s) 0 runs"
    and full: "\<forall>r\<in>set runs. length r = runLength prm \<and> sorted r"
    by (simp_all add: run_formation_def)
  let ?s1 = "s\<lparr> m_currentRunItems := ?run @ drop ?count ?items \<rparr>"
  have s1: "sort_current_run s = Inr ?s1"
    using cnt len by (simp add: sort_current_run_def buffered_def)
  have lrun: "length ?run = ?count"
    using cnt len by (simp add: buffered_def)
  have tk: "take ?count (?run @ drop ?count ?items) = ?run"
    using lrun by simp
  show ?thesis
  proof (cases "m_finishedRuns s = 0 \<and> ?count \<le> internalReportThreshold prm")
    case True
    let ?s' = "?s1\<lparr> m_reportInternal := True, m_itemsPulled := 0 \<rparr>"
    have e: "end_sorter s = Inr ?s'"
      using True s1 set prm by (simp add: end_sorter_def tp_assert_def)
    have c: "calc ?s' = Some (Inr (?s'\<lparr> pull_prepared := True \<rparr>))"
      using set by (simp add: calc_def tp_assert_def)
    have "pull_all (?s'\<lparr> pull_prepared := True \<rparr>)
          = Inr (take ?count (drop (m_itemsPulled (?s'\<lparr> pull_prepared := True \<rparr>))
                                (m_currentRunItems (?s'\<lparr> pull_prepared := True \<rparr>))))"
      using cnt len lrun by (intro pull_all_internal) simp_all
    then have pa: "pull_all (?s'\<lparr> pull_prepared := True \<rparr>) = Inr ?run"
      using tk by simp
    from True fin have "runs = []" by simp
    with e c pa show ?thesis by blast
  next
    case False
    let ?sa = "?s1\<lparr> m_reportInternal := False \<rparr>"
    from write_run_stored [OF st assms(2), of ?run] obtain opened where
      op: "open_run_file_write prm (m_runFiles s) 0 (length runs) = Inr opened"
      and st': "stored prm (fst (foldl fs_write opened ?run)) 0 (runs @ [?run])"
      by blast
    let ?sb = "?sa\<lparr> m_runFiles := fst (foldl fs_write opened ?run),
                     m_currentRunItemCount := 0,
                     m_finishedRuns := length runs + 1 \<rparr>"
    have sb: "empty_current_run ?sa = Inr ?sb"
      using op prm fin lrun tk by (simp add: empty_current_run_Inr)
    let ?s' = "?sb\<lparr> m_currentRunItems := [] \<rparr>"
    have e: "end_sorter s = Inr ?s'"
      using False s1 sb set prm by (auto simp: end_sorter_def tp_assert_def)
    have reg: "regular (calculate_run_length (runLength prm) (fanout prm) 0) (runs @ [?run])"
      using full lrun cnt by (simp add: regular_snoc calculate_run_length_mod)
    have "level_state prm ?s' 0 (runs @ [?run])"
      using prm st' reg full assms(3,4) lrun
      by (simp add: level_state_def calculate_run_length_mod length_concat buffered_def)
    with e set show ?thesis by simp
  qed
qed

subsection \<open>Merging stored runs\<close>

lemma map_nth_take_drop:
  "a + n \<le> length xs \<Longrightarrow> map (\<lambda>r. xs ! r) [a..<a + n] = take n (drop a xs)"
  by (rule nth_equalityI) simp_all

lemma merge_runs_stored:
  assumes "stored (p s) (m_runFiles s) L runs" "0 < fanout (p s)"
      and "regular (calculate_run_length (runLength (p s)) (fanout (p s)) L) runs"
      and "length (concat runs) < size_t_range" "rn + rc \<le> length runs"
  defines "idx \<equiv> ((L + 1) mod 2) * fanout (p s) + (rn div fanout (p s)) mod fanout (p s)"
  shows "\<exists>m. merge_runs s L rn rc =
           Inr (s\<lparr> m_merger := m,
                   m_runFiles := (m_runFiles s)
                     [idx := (if rn div fanout (p s) < fanout (p s) then []
                              else m_runFiles s ! idx)
                             @ merger_drain (take rc (drop rn runs))] \<rparr>,
                rn div fanout (p s))"
proof -
  let ?f = "fanout (p s)"
  let ?RL = "calculate_run_length (runLength (p s)) ?f L"
  have rd: "readable (p s) (m_runFiles s) L r"
    and it: "run_items (p s) (m_runFiles s) L r ?RL = runs ! r" if "r < length runs" for r
    using stored_run_items [OF assms(1,2,3) that assms(4)] by simp_all
  have "\<forall>r\<in>{rn..<rn + rc}. readable (p s) (m_runFiles s) L r"
    using rd assms(5) by simp
  moreover have "?f \<noteq> 0" using assms(2) by simp
  moreover have "idx < length (m_runFiles s)"
    unfolding idx_def using assms(1,2) by (intro bank_index) (simp_all add: stored_length)
  ultimately obtain s' where m: "merge_runs s L rn rc = Inr (s', rn div ?f)"
    unfolding idx_def using merge_runs_readable [of rn rc s L] by blast
  have "map (\<lambda>r. run_items (p s) (m_runFiles s) L r ?RL) [rn..<rn + rc]
        = map (\<lambda>r. runs ! r) [rn..<rn + rc]"
    using it assms(5) by (intro map_cong) simp_all
  also have "\<dots> = take rc (drop rn runs)"
    using assms(5) by (rule map_nth_take_drop)
  finally have runs: "map (\<lambda>r. run_items (p s) (m_runFiles s) L r ?RL) [rn..<rn + rc]
        = take rc (drop rn runs)" .
  from merge_runs_Inr(4) [OF m] have
    "s' = s\<lparr> m_merger := (if merger_can_pull (take rc (drop rn runs)) then []
                             else take rc (drop rn runs)),
              m_runFiles := (m_runFiles s)
                     [idx := (if rn div ?f < ?f then [] else m_runFiles s ! idx)
                             @ merger_drain (take rc (drop rn runs))] \<rparr>"
    unfolding runs idx_def .
  with m show ?thesis by blast
qed

subsection \<open>One merge round\<close>

lemma concat_groups:
  "concat (map (\<lambda>i. take f (drop (i * f) runs)) [0..<k]) = take (k * f) runs"
proof (induction k)
  case 0
  show ?case by simp
next
  case (Suc k)
  have "take (k * f) runs @ take f (drop (k * f) runs) = take (k * f + f) runs"
    by (simp add: take_add)
  with Suc show ?case by (simp add: add.commute)
qed

lemma mset_merged_groups:
  "mset (concat (map (merged_group f runs) [0..<k])) = mset (concat (take (k * f) runs))"
proof -
  have "mset (concat (map (merged_group f runs) js))
        = mset (concat (concat (map (\<lambda>i. take f (drop (i * f) runs)) js)))" for js
    by (induction js) (simp_all add: merged_group_def merger_drain_correct)
  then show ?thesis
    by (simp add: concat_groups)
qed

lemma sorted_merged_group:
  assumes "\<forall>r\<in>set runs. sorted r"
  shows "sorted (merged_group f runs i)"
proof -
  have "\<forall>r\<in>set (take f (drop (i * f) runs)). sorted r"
    using assms by (meson in_set_dropD in_set_takeD)
  then show ?thesis
    unfolding merged_group_def using merger_drain_correct by blast
qed

lemma length_concat_le:
  "\<forall>r\<in>set rs. length r \<le> n \<Longrightarrow> length (concat rs) \<le> n * length rs"
  by (induction rs) auto

lemma length_concat_eq:
  "\<forall>r\<in>set rs. length r = n \<Longrightarrow> length (concat rs) = n * length rs"
  by (induction rs) auto

lemma regular_le: "regular RL runs \<Longrightarrow> r \<in> set runs \<Longrightarrow> length r \<le> RL"
  by (auto simp: regular_def in_set_conv_nth)

lemma regular_take_full:
  assumes "regular RL runs" "k < length runs" "r \<in> set (take k runs)"
  shows "length r = RL"
proof -
  from assms(3) obtain i where i: "i < length (take k runs)" "take k runs ! i = r"
    by (auto simp: in_set_conv_nth)
  with assms(2) have "Suc i < length runs" "runs ! i = r" by simp_all
  with assms(1) show ?thesis
    by (auto simp: regular_def)
qed

lemma length_merged_group_le:
  assumes "regular RL runs"
  shows "length (merged_group f runs i) \<le> RL * f"
proof -
  let ?g = "take f (drop (i * f) runs)"
  have "\<forall>r\<in>set ?g. length r \<le> RL"
    using assms by (meson in_set_dropD in_set_takeD regular_le)
  then have "length (concat ?g) \<le> RL * length ?g"
    by (rule length_concat_le)
  also have "\<dots> \<le> RL * f"
    by simp
  finally show ?thesis
    by (simp add: merged_group_def length_merger_drain)
qed

lemma length_merged_group_full:
  assumes "regular RL runs" "Suc i * f < length runs"
  shows "length (merged_group f runs i) = RL * f"
proof -
  let ?g = "take f (drop (i * f) runs)"
  have g: "?g = drop (i * f) (take (Suc i * f) runs)"
    by (simp add: drop_take add.commute)
  have "\<forall>r\<in>set ?g. length r = RL"
    unfolding g using regular_take_full [OF assms] by (meson in_set_dropD)
  then have "length (concat ?g) = RL * length ?g"
    by (rule length_concat_eq)
  moreover have "length ?g = f"
    using assms(2) by simp
  ultimately show ?thesis
    by (simp add: merged_group_def length_merger_drain)
qed

lemma regular_merged_groups:
  assumes "regular RL runs" "0 < f"
  shows "regular (RL * f) (map (merged_group f runs) [0..<(length runs + f - 1) div f])"
proof -
  let ?G = "(length runs + f - 1) div f"
  have "length (merged_group f runs i) = RL * f" if "Suc i < ?G" for i
    using assms(1) group_count_bounds(2) [OF assms(2) that]
    by (rule length_merged_group_full)
  then show ?thesis
    using length_merged_group_le [OF assms(1)] by (simp add: regular_def)
qed

lemma regular_full_prefix:
  assumes "regular RL runs" "f < length runs"
  shows "RL * f \<le> length (concat runs)"
proof -
  have "\<forall>r\<in>set (take f runs). length r = RL"
    using regular_take_full [OF assms] by blast
  then have "length (concat (take f runs)) = RL * length (take f runs)"
    by (rule length_concat_eq)
  with assms(2) have "length (concat (take f runs)) = RL * f"
    by simp
  moreover have "length (concat runs) = length (concat (take f runs)) + length (concat (drop f runs))"
    by (metis append_take_drop_id concat_append length_append)
  ultimately show ?thesis by simp
qed

lemma calculate_run_length_Suc:
  "calculate_run_length rl f (Suc L) = size_t_mul (calculate_run_length rl f L) f"
proof -
  have "(rl * f ^ L mod size_t_range * f) mod size_t_range = (rl * f ^ L * f) mod size_t_range"
    by (rule mod_mult_left_eq)
  then show ?thesis
    by (simp add: calculate_run_length_mod size_t_mul_def mult_ac)
qed

lemma other_bank:
  fixes f :: nat
  assumes "a < f" "b < f"
  shows "((L + 1) mod 2) * f + a \<noteq> (L mod 2) * f + b"
proof (cases "L mod 2 = 0")
  case True
  then have "(L + 1) mod 2 = 1" by presburger
  with True assms show ?thesis by simp
next
  case False
  then have "L mod 2 = 1" "(L + 1) mod 2 = 0" by presburger+
  with assms show ?thesis by simp
qed

lemma stored_write_other_bank:
  assumes "stored prm files L runs" "a < fanout prm"
  shows "stored prm (files[((L + 1) mod 2) * fanout prm + a := x]) L runs"
  using assms(1)
proof (rule stored_other_bank)
  show "length (files[((L + 1) mod 2) * fanout prm + a := x]) = length files"
    by simp
  show "files[((L + 1) mod 2) * fanout prm + a := x] ! ((L mod 2) * fanout prm + j)
        = files ! ((L mod 2) * fanout prm + j)" if "j < fanout prm" for j
    using other_bank [OF assms(2) that, of L] by simp
qed

lemma merge_group_step:
  assumes "p s = prm" "0 < fanout prm" "stored prm (m_runFiles s) L runs"
      and "regular (calculate_run_length (runLength prm) (fanout prm) L) runs"
      and "length (concat runs) < size_t_range"
      and "stored prm (m_runFiles s) (L + 1) (map (merged_group (fanout prm) runs) [0..<j])"
      and "j * fanout prm < length runs"
  shows "\<exists>s'. merge_runs s L (j * fanout prm) (min (length runs - j * fanout prm) (fanout prm))
                = Inr (s', j)
           \<and> p s' = prm \<and> m_reportInternal s' = m_reportInternal s
           \<and> stored prm (m_runFiles s') L runs
           \<and> stored prm (m_runFiles s') (L + 1)
                (map (merged_group (fanout prm) runs) [0..<Suc j])"
proof -
  let ?f = "fanout prm"
  let ?n = "min (length runs - j * ?f) ?f"
  let ?idx = "((L + 1) mod 2) * ?f + j mod ?f"
  let ?x = "merged_group ?f runs j"
  let ?files' = "(m_runFiles s)[?idx := (if j < ?f then [] else m_runFiles s ! ?idx) @ ?x]"
  have n: "j * ?f + ?n \<le> length runs"
    using assms(7) by simp
  have dv: "j * ?f div ?f = j"
    using assms(2) by simp
  have tk: "take ?n (drop (j * ?f) runs) = take ?f (drop (j * ?f) runs)"
    by (simp add: min_def)
  from merge_runs_stored [of s L runs "j * ?f" ?n, unfolded assms(1),
         OF assms(3) assms(2) assms(4) assms(5) n]
  obtain m where
    m: "merge_runs s L (j * ?f) ?n = Inr (s\<lparr> m_merger := m, m_runFiles := ?files' \<rparr>, j)"
    unfolding dv tk merged_group_def by blast
  have lj: "length (map (merged_group ?f runs) [0..<j]) = j"
    and app: "map (merged_group ?f runs) [0..<Suc j] = map (merged_group ?f runs) [0..<j] @ [?x]"
    by simp_all
  from stored_append [OF assms(6,2), of ?x]
  have up: "stored prm ?files' (L + 1) (map (merged_group ?f runs) [0..<Suc j])"
    unfolding lj app .
  have "j mod ?f < ?f" using assms(2) by simp
  from stored_write_other_bank [OF assms(3) this]
  have same: "stored prm ?files' L runs" .
  from m up same assms(1) show ?thesis
    by (intro exI [of _ "s\<lparr> m_merger := m, m_runFiles := ?files' \<rparr>"]) simp
qed

lemma merge_groups_round:
  assumes "0 < fanout prm"
      and "regular (calculate_run_length (runLength prm) (fanout prm) L) runs"
      and "length (concat runs) < size_t_range"
  shows "p s = prm \<Longrightarrow> stored prm (m_runFiles s) L runs \<Longrightarrow>
         stored prm (m_runFiles s) (L + 1) (map (merged_group (fanout prm) runs) [0..<j]) \<Longrightarrow>
         j \<le> G \<Longrightarrow> G = (length runs + fanout prm - 1) div fanout prm \<Longrightarrow>
         \<exists>s'. merge_groups s L (length runs) [j..<G] = Inr s'
            \<and> p s' = prm \<and> m_reportInternal s' = m_reportInternal s
            \<and> stored prm (m_runFiles s') (L + 1) (map (merged_group (fanout prm) runs) [0..<G])"
proof (induction "G - j" arbitrary: j s)
  case 0
  then have "j = G" by simp
  with 0 show ?case by simp
next
  case (Suc k)
  let ?f = "fanout prm"
  from Suc.hyps(2) have j: "j < G" by simp
  with Suc.prems(5) have "j * ?f < length runs"
    using group_count_bounds(2) [OF assms(1)] by simp
  from merge_group_step [OF Suc.prems(1) assms(1) Suc.prems(2) assms(2,3) Suc.prems(3) this]
  obtain s1 where
    m: "merge_runs s L (j * ?f) (min (length runs - j * ?f) ?f) = Inr (s1, j)"
    and s1: "p s1 = prm" "m_reportInternal s1 = m_reportInternal s"
      "stored prm (m_runFiles s1) L runs"
      "stored prm (m_runFiles s1) (L + 1) (map (merged_group ?f runs) [0..<Suc j])"
    by blast
  from Suc.hyps(2) have k: "k = G - Suc j" by simp
  from j have "Suc j \<le> G" by simp
  from Suc.hyps(1) [OF k s1(1,3,4) this Suc.prems(5)] obtain s' where
    s': "merge_groups s1 L (length runs) [Suc j..<G] = Inr s'" "p s' = prm"
      "m_reportInternal s' = m_reportInternal s1"
      "stored prm (m_runFiles s') (L + 1) (map (merged_group ?f runs) [0..<G])"
    by blast
  have "merge_groups s L (length runs) [j..<G] = Inr s'"
    using j m s'(1) Suc.prems(1) by (simp add: upt_conv_Cons)
  with s' s1(2) show ?case by simp
qed

lemma merge_round:
  assumes "level_state prm s L runs" "0 < fanout prm" "fanout prm < length runs"
  defines "G \<equiv> (length runs + fanout prm - 1) div fanout prm"
  shows "\<exists>s'. merge_level_loop s L (length runs) 0 0 = Inr (s', G)
           \<and> level_state prm s' (L + 1) (map (merged_group (fanout prm) runs) [0..<G])
           \<and> mset (concat (map (merged_group (fanout prm) runs) [0..<G])) = mset (concat runs)"
proof -
  let ?f = "fanout prm"
  let ?RL = "calculate_run_length (runLength prm) ?f L"
  let ?runs' = "map (merged_group ?f runs) [0..<G]"
  from assms(1) have prm: "p s = prm" and ext: "\<not> m_reportInternal s"
    and st: "stored prm (m_runFiles s) L runs" and reg: "regular ?RL runs"
    and srt: "\<forall>r\<in>set runs. sorted r" and rl: "?RL * ?f < size_t_range"
    and n: "length (concat runs) * ?f < size_t_range"
    by (simp_all add: level_state_def)
  have n': "length (concat runs) < size_t_range"
  proof -
    have "length (concat runs) \<le> length (concat runs) * ?f"
      using assms(2) by simp
    from this n show ?thesis by (rule le_less_trans)
  qed
  have "stored prm (m_runFiles s) (L + 1) (map (merged_group ?f runs) [0..<0])"
    using st by (simp add: stored_Nil stored_length)
  from merge_groups_round [OF assms(2) reg n' prm st this, of G] obtain s' where
    s': "merge_groups s L (length runs) [0..<G] = Inr s'" "p s' = prm"
      "m_reportInternal s' = m_reportInternal s" "stored prm (m_runFiles s') (L + 1) ?runs'"
    unfolding G_def by auto
  have loop: "merge_level_loop s L (length runs) 0 0 = Inr (s', G)"
    using merge_level_loop_groups [of s L "length runs"] assms(2) s'(1) prm
    unfolding G_def by simp
  have ms: "mset (concat ?runs') = mset (concat runs)"
  proof -
    have "length runs \<le> G * ?f"
      unfolding G_def using assms(2) by (rule group_count_bounds(1))
    then show ?thesis
      by (simp add: mset_merged_groups)
  qed
  then have len: "length (concat ?runs') = length (concat runs)"
    by (rule mset_eq_length)
  have next_rl: "calculate_run_length (runLength prm) ?f (L + 1) = ?RL * ?f"
    using rl by (simp add: calculate_run_length_Suc size_t_mul_def)
  have "regular (?RL * ?f) ?runs'"
    unfolding G_def using reg assms(2) by (rule regular_merged_groups)
  moreover have "\<forall>r\<in>set ?runs'. sorted r"
    using sorted_merged_group [OF srt] by simp
  moreover have "?RL * ?f * ?f < size_t_range"
  proof -
    have "?RL * ?f \<le> length (concat runs)"
      using reg assms(3) by (rule regular_full_prefix)
    then have "?RL * ?f * ?f \<le> length (concat runs) * ?f"
      by (rule mult_le_mono1)
    from this n show ?thesis by (rule le_less_trans)
  qed
  ultimately have "level_state prm s' (L + 1) ?runs'"
    using s'(2,3,4) ext n unfolding level_state_def next_rl len by simp
  with loop ms show ?thesis by blast
qed

subsection \<open>The merge rounds\<close>

lemma group_count_less:
  fixes f n :: nat
  assumes "2 \<le> f" "f < n"
  shows "(n + f - 1) div f < n"
proof -
  have "n + f \<le> 2 * n" using assms(2) by simp
  also have "\<dots> \<le> n * f" using assms(1) by simp
  finally have "n + f - 1 < n * f" using assms(2) by simp
  then show ?thesis
    using assms(1) by (simp add: less_mult_imp_div_less)
qed

lemma prepare_pull_loop_levels:
  assumes "2 \<le> fanout prm"
  shows "level_state prm s L runs \<Longrightarrow>
         \<exists>s' L' runs'. prepare_pull_loop s L (length runs) = Some (Inr (s', L', length runs'))
            \<and> level_state prm s' L' runs' \<and> length runs' \<le> fanout prm
            \<and> mset (concat runs') = mset (concat runs)"
proof (induction "length runs" arbitrary: s L runs rule: less_induct)
  case less
  let ?f = "fanout prm"
  from less.prems have prm: "p s = prm"
    by (simp add: level_state_def)
  show ?case
  proof (cases "?f < length runs")
    case False
    then have "prepare_pull_loop s L (length runs) = Some (Inr (s, L, length runs))"
      using prm by (subst prepare_pull_loop.simps) simp
    with False less.prems show ?thesis
      by (intro exI [of _ s] exI [of _ L] exI [of _ runs]) simp
  next
    case True
    let ?G = "(length runs + ?f - 1) div ?f"
    let ?runs1 = "map (merged_group ?f runs) [0..<?G]"
    from assms have f0: "0 < ?f" by simp
    from merge_round [OF less.prems f0 True] obtain s1 where
      loop: "merge_level_loop s L (length runs) 0 0 = Inr (s1, ?G)"
      and lv: "level_state prm s1 (L + 1) ?runs1"
      and ms: "mset (concat ?runs1) = mset (concat runs)"
      by blast
    have "length ?runs1 < length runs"
      using group_count_less [OF assms True] by simp
    from less.hyps [OF this lv] obtain s' L' runs' where
      ih: "prepare_pull_loop s1 (L + 1) (length ?runs1) = Some (Inr (s', L', length runs'))"
        "level_state prm s' L' runs'" "length runs' \<le> ?f"
        "mset (concat runs') = mset (concat ?runs1)"
      by blast
    have "prepare_pull_loop s L (length runs) = prepare_pull_loop s1 (L + 1) ?G"
      using True loop prm by (subst prepare_pull_loop.simps) simp
    with ih ms show ?thesis
      by (intro exI [of _ s'] exI [of _ L'] exI [of _ runs']) simp
  qed
qed

subsection \<open>Pulling from the final merger\<close>

lemma pull_all_external:
  "pull_prepared s \<Longrightarrow> \<not> m_reportInternal s \<Longrightarrow>
   pull_all s = Inr (merger_drain (m_merger s))"
proof (induction "length (concat (m_merger s))" arbitrary: s rule: less_induct)
  case less
  show ?case
  proof (cases "merger_can_pull (m_merger s)")
    case False
    with less.prems have "pull_all s = Inr []"
      by (subst pull_all.simps) (simp add: can_pull_def tp_assert_def)
    with False show ?thesis by simp
  next
    case True
    then obtain el m' where
      mp: "merger_pull (m_merger s) = Inr (el, m')"
      and dec: "length (concat m') < length (concat (m_merger s))"
      by (rule merger_pull_step)
    let ?s' = "s\<lparr> m_merger := m' \<rparr>"
    have "pull_all ?s' = Inr (merger_drain (m_merger ?s'))"
      using dec less.prems by (intro less.hyps) simp_all
    then have rest: "pull_all ?s' = Inr (merger_drain m')"
      by simp
    have "pull s = Inr (el, ?s')"
      using less.prems mp by (simp add: pull_def tp_assert_def)
    with True less.prems rest have "pull_all s = Inr (el # merger_drain m')"
      by (subst pull_all.simps) (simp add: can_pull_def tp_assert_def)
    moreover have "merger_drain (m_merger s) = el # merger_drain m'"
      using True mp by (subst merger_drain_simps) simp
    ultimately show ?thesis by simp
  qed
qed

subsection \<open>The final merger over stored runs\<close>

lemma initialize_final_merger_levels:
  assumes "level_state prm s L runs" "0 < fanout prm" "length runs \<le> fanout prm"
      and "1 \<le> finalFanout prm" "fanout prm < size_t_range"
  shows "\<exists>s'. initialize_final_merger s L (length runs) = Inr s' \<and> \<not> m_reportInternal s'
           \<and> (\<forall>r\<in>set (m_merger s'). sorted r)
           \<and> mset (concat (m_merger s')) = mset (concat runs)"
proof -
  let ?f = "fanout prm"
  let ?ff = "finalFanout prm"
  let ?rc = "length runs"
  let ?files = "m_runFiles s"
  let ?RL = "calculate_run_length (runLength prm) ?f L"
  from assms(1) have prm: "p s = prm" and ext: "\<not> m_reportInternal s"
    and st: "stored prm ?files L runs" and reg: "regular ?RL runs"
    and srt: "\<forall>r\<in>set runs. sorted r" and rl: "?RL * ?f < size_t_range"
    and n: "length (concat runs) * ?f < size_t_range"
    by (simp_all add: level_state_def)
  have n': "length (concat runs) < size_t_range"
  proof -
    have "length (concat runs) \<le> length (concat runs) * ?f"
      using assms(2) by simp
    from this n show ?thesis by (rule le_less_trans)
  qed
  have next_rl: "calculate_run_length (runLength prm) ?f (L + 1) = ?RL * ?f"
    using rl by (simp add: calculate_run_length_Suc size_t_mul_def)
  then have next_rl': "calculate_run_length (runLength prm) ?f (Suc L) = ?RL * ?f"
    by simp
  show ?thesis
  proof (cases "?ff < ?rc")
    case False
    have "\<forall>r\<in>{0..<0 + ?rc}. readable (p s) (m_runFiles s) L r"
      unfolding prm using stored_run_items(1) [OF st assms(2) reg _ n'] by simp
    from initialize_merger_readable [OF this]
    have "initialize_merger s L 0 ?rc =
            Inr (s\<lparr> m_merger := map (\<lambda>r. run_items prm ?files L r ?RL) [0..<?rc] \<rparr>)"
      unfolding prm by simp
    moreover have "map (\<lambda>r. run_items prm ?files L r ?RL) [0..<?rc] = map (\<lambda>r. runs ! r) [0..<?rc]"
      using stored_run_items(2) [OF st assms(2) reg _ n'] by (intro map_cong) simp_all
    then have "map (\<lambda>r. run_items prm ?files L r ?RL) [0..<?rc] = runs"
      by (simp add: map_nth)
    ultimately have "initialize_final_merger s L ?rc = Inr (s\<lparr> m_merger := runs \<rparr>)"
      using False prm by (simp add: initialize_final_merger_def)
    with ext srt show ?thesis by simp
  next
    case True
    define k where "k = ?ff - 1"
    let ?idx = "((L + 1) mod 2) * ?f + 0 mod ?f"
    let ?x = "merger_drain (drop k runs)"
    let ?files1 = "?files[?idx := ?x]"
    let ?RL' = "calculate_run_length (runLength prm) ?f (L + 1)"
    from True assms(3,4) have kf: "k < ?f" and krc: "k < ?rc" and k: "?ff - 1 = k"
      by (simp_all add: k_def)
    from True assms(3,5) have ff: "?ff < size_t_range" and rc: "?rc < size_t_range"
      by simp_all
    have sub1: "size_t_sub ?ff 1 = k"
      unfolding k_def using assms(4) ff by (rule size_t_sub_exact)
    have sub2: "size_t_sub ?rc k = ?rc - k"
      using krc rc by (intro size_t_sub_exact) simp_all
    have dv: "k div ?f = 0"
      using kf by simp
    have ifeq: "(if 0 < ?f then [] else ?files ! ?idx)
                  @ merger_drain (take (?rc - k) (drop k runs)) = ?x"
      using assms(2) by simp
    have "k + (?rc - k) \<le> ?rc"
      using krc by simp
    from merge_runs_stored [of s L runs k "?rc - k", unfolded prm, OF st assms(2) reg n' this]
    obtain m where
      m: "merge_runs s L k (?rc - k) = Inr (s\<lparr> m_merger := m, m_runFiles := ?files1 \<rparr>, 0)"
      unfolding dv ifeq by blast
    have idx: "?idx < length ?files"
      using st assms(2) by (intro bank_index) (simp_all add: stored_length)
    have st1: "stored prm ?files1 L runs"
      using st by (rule stored_write_other_bank) (use assms(2) in simp)
    have le': "length r \<le> ?RL'" if "r \<in> set runs" for r
    proof -
      from reg that have "length r \<le> ?RL" by (rule regular_le)
      also have "\<dots> \<le> ?RL * ?f" using assms(2) by simp
      finally show ?thesis by (simp add: next_rl')
    qed
    have "readable prm ?files1 L r" if "r < k" for r
      using stored_run_items_single(1) [OF st1 assms(2,3), of r "length (runs ! r)"] that krc
      by simp
    then have "\<forall>r\<in>set [0..<k]. readable prm ?files1 L r"
      by simp
    then obtain short where short: "open_runs prm ?files1 L [0..<k] = Inr short"
      using open_runs_readable by blast
    have "run_items prm ?files1 L r ?RL' = runs ! r" if "r < k" for r
      using stored_run_items_single(2) [OF st1 assms(2,3), of r ?RL'] that krc
        le' [of "runs ! r"]
      by simp
    then have "map (\<lambda>r. run_items prm ?files1 L r ?RL') [0..<k] = map (\<lambda>r. runs ! r) [0..<k]"
      by (intro map_cong) simp_all
    also have "\<dots> = take k runs"
      using krc map_nth_take_drop [of 0 k runs] by simp
    finally have short_items: "merger_reset ?files1 short ?RL' = take k runs"
      using open_runs_Inr [OF short, of ?RL'] by simp
    have long: "open_run_file_read prm ?files1 (L + 1) 0 = Inr \<lparr> fs_file = ?idx, fs_pos = 0 \<rparr>"
      using assms(2) idx by (simp add: open_run_file_read_eq size_t_mul_def dv)
    have "length ?x \<le> ?RL'"
    proof -
      have "\<forall>r\<in>set (drop k runs). length r \<le> ?RL"
        using reg by (meson in_set_dropD regular_le)
      then have "length (concat (drop k runs)) \<le> ?RL * length (drop k runs)"
        by (rule length_concat_le)
      also have "\<dots> \<le> ?RL * ?f"
      proof -
        have "length (drop k runs) \<le> ?f"
          using assms(3) by simp
        then show ?thesis by (rule mult_le_mono2)
      qed
      finally show ?thesis
        by (simp add: length_merger_drain next_rl')
    qed
    then have long_items:
      "merger_reset ?files1 [\<lparr> fs_file = ?idx, fs_pos = 0 \<rparr>] ?RL' = [?x]"
      using idx by (simp add: merger_reset_def)
    have reset: "merger_reset ?files1 (short @ [\<lparr> fs_file = ?idx, fs_pos = 0 \<rparr>]) ?RL'
                 = take k runs @ [?x]"
      using short_items long_items by (simp add: merger_reset_def)
    let ?s' = "s\<lparr> m_merger := take k runs @ [?x], m_runFiles := ?files1 \<rparr>"
    have "initialize_final_merger s L ?rc = Inr ?s'"
      unfolding initialize_final_merger_def Let_def
      using True assms(4) prm sub1 sub2 k m short long reset by simp
    moreover have "\<forall>r\<in>set (take k runs @ [?x]). sorted r"
    proof -
      have "\<forall>r\<in>set (drop k runs). sorted r"
        using srt by (meson in_set_dropD)
      then have "sorted ?x"
        using merger_drain_correct by blast
      moreover have "\<forall>r\<in>set (take k runs). sorted r"
        using srt by (meson in_set_takeD)
      ultimately show ?thesis by simp
    qed
    moreover have "mset (concat (take k runs @ [?x])) = mset (concat runs)"
    proof -
      have "concat (take k runs) @ concat (drop k runs) = concat runs"
        by (metis append_take_drop_id concat_append)
      then have "mset (concat (take k runs)) + mset (concat (drop k runs)) = mset (concat runs)"
        by (metis mset_append)
      then show ?thesis
        by (simp add: merger_drain_correct)
    qed
    ultimately show ?thesis
      using ext by (intro exI [of _ ?s']) simp
  qed
qed

subsection \<open>Correctness of the sorter\<close>

text \<open>
  C1. For every finite sequence of items pushed into the sorter between \<^verbatim>\<open>begin()\<close> and
  \<^verbatim>\<open>end()\<close>, with the parameters set before, the session returns: after \<^verbatim>\<open>calc()\<close> the
  sequence obtained by calling \<^verbatim>\<open>pull()\<close> for as long as \<^verbatim>\<open>can_pull()\<close> returns true is a
  permutation of the pushed items and is non-decreasing in the order of the items. The run
  length is at least 1, the fanout at least 2 and the final fanout at least 1, and the run
  length times the fanout and the number of items times the fanout fit into \<^verbatim>\<open>size_t\<close>.
\<close>

theorem pulled_sequence_sorted_permutation:
  assumes "m_parametersSet s"
      and "1 \<le> runLength (p s)" "2 \<le> fanout (p s)" "1 \<le> finalFanout (p s)"
      and "runLength (p s) * fanout (p s) < size_t_range"
      and "length xs * fanout (p s) < size_t_range"
  shows "\<exists>ys. sorter_session filler xs s = Some (Inr ys) \<and> sorted ys \<and> mset ys = mset xs"
proof -
  let ?prm = "p s"
  let ?f = "fanout ?prm"
  from assms(3) have f0: "0 < ?f" by simp
  have f_range: "?f < size_t_range"
  proof -
    have "?f \<le> runLength ?prm * ?f" using assms(2) by simp
    from this assms(5) show ?thesis by (rule le_less_trans)
  qed
  from begin_sorter_run_formation [OF assms(1), of filler] obtain s1 where
    b: "begin_sorter filler s = Inr s1" and f1: "run_formation ?prm s1 []"
    and b1: "buffered s1 = []"
    by blast
  from push_list_runs [OF assms(2) f0 f1, of xs] b1 obtain s2 runs where
    ps: "push_list xs s1 = Inr s2" and f2: "run_formation ?prm s2 runs"
    and m2: "mset (concat runs) + mset (buffered s2) = mset xs"
    by auto
  from m2 have "mset (concat runs @ buffered s2) = mset xs"
    by simp
  then have "length (concat runs @ buffered s2) = length xs"
    by (rule mset_eq_length)
  with assms(6) have n: "(length (concat runs) + length (buffered s2)) * ?f < size_t_range"
    by simp
  from end_sorter_cases [OF f2 f0 assms(5) n]
  show ?thesis
  proof (elim disjE exE conjE)
    fix s3
    assume e: "end_sorter s2 = Inr s3" and r: "runs = []"
      and c: "calc s3 = Some (Inr (s3\<lparr> pull_prepared := True \<rparr>))"
      and pa: "pull_all (s3\<lparr> pull_prepared := True \<rparr>) = Inr (sort (buffered s2))"
    from b ps e c pa have "sorter_session filler xs s = Some (Inr (sort (buffered s2)))"
      by (simp add: sorter_session_def)
    moreover from m2 r have "mset (sort (buffered s2)) = mset xs"
      by simp
    ultimately show ?thesis
      by (intro exI [of _ "sort (buffered s2)"]) simp
  next
    fix s3
    let ?runs3 = "runs @ [sort (buffered s2)]"
    assume e: "end_sorter s2 = Inr s3" and set3: "m_parametersSet s3"
      and fin: "m_finishedRuns s3 = length runs + 1"
      and lv: "level_state ?prm s3 0 ?runs3"
    from lv have ext3: "\<not> m_reportInternal s3"
      by (simp add: level_state_def)
    from m2 have m3: "mset (concat ?runs3) = mset xs"
      by simp
    from prepare_pull_loop_levels [OF assms(3) lv] obtain s4 L runs4 where
      loop: "prepare_pull_loop s3 0 (length ?runs3) = Some (Inr (s4, L, length runs4))"
      and lv4: "level_state ?prm s4 L runs4" and len4: "length runs4 \<le> ?f"
      and m4: "mset (concat runs4) = mset (concat ?runs3)"
      by blast
    from initialize_final_merger_levels [OF lv4 f0 len4 assms(4) f_range] obtain s5 where
      fm: "initialize_final_merger s4 L (length runs4) = Inr s5"
      and ext5: "\<not> m_reportInternal s5"
      and srt5: "\<forall>r\<in>set (m_merger s5). sorted r"
      and m5: "mset (concat (m_merger s5)) = mset (concat runs4)"
      by blast
    let ?s6 = "s5\<lparr> pull_prepared := True \<rparr>"
    let ?ys = "merger_drain (m_merger s5)"
    have "prepare_pull s3 = Some (Inr ?s6)"
      using loop fm fin by (simp add: prepare_pull_def)
    then have c: "calc s3 = Some (Inr ?s6)"
      using set3 ext3 by (simp add: calc_def tp_assert_def)
    have "pull_all ?s6 = Inr (merger_drain (m_merger ?s6))"
      using ext5 by (intro pull_all_external) simp_all
    then have pa: "pull_all ?s6 = Inr ?ys"
      by simp
    from b ps e c pa have "sorter_session filler xs s = Some (Inr ?ys)"
      by (simp add: sorter_session_def)
    moreover have "sorted ?ys"
      using srt5 merger_drain_correct by blast
    moreover have "mset ?ys = mset xs"
      using m5 m4 m3 by (simp add: merger_drain_correct)
    ultimately show ?thesis
      by (intro exI [of _ ?ys]) simp
  qed
qed

theorem pulled_sequence_sorted_permutation_witness:
  "m_parametersSet (set_parameters 2 2 (new_merge_sorter example_indeterminate))
   \<and> sorter_session 0 [5, 3, 8, 1, 9, 2, 7]
       (set_parameters 2 2 (new_merge_sorter example_indeterminate))
     = Some (Inr [1, 2, 3, 5, 7, 8, 9])"
proof -
  let ?s = "set_parameters 2 2 (new_merge_sorter example_indeterminate)"
  let ?xs = "[5, 3, 8, 1, 9, 2, 7::nat]"
  have h1: "m_parametersSet ?s"
    and h2: "1 \<le> runLength (p ?s)" and h3: "2 \<le> fanout (p ?s)"
    and h4: "1 \<le> finalFanout (p ?s)"
    and h5: "runLength (p ?s) * fanout (p ?s) < size_t_range"
    and h6: "length ?xs * fanout (p ?s) < size_t_range"
    by (simp_all add: set_parameters_def size_t_range_def)
  from pulled_sequence_sorted_permutation [OF h1 h2 h3 h4 h5 h6, of 0] obtain ys where
    ys: "sorter_session 0 ?xs ?s = Some (Inr ys)" "sorted ys" "mset ys = mset ?xs"
    by blast
  from ys(3,2) have "sort ?xs = ys"
    by (rule properties_for_sort)
  then have "ys = [1, 2, 3, 5, 7, 8, 9]"
    by simp
  with ys(1) h1 show ?thesis
    by simp
qed

section \<open>Properties of the parallel execution core\<close>

subsection \<open>Flushing a worker's output buffer\<close>

lemma flush_wait_Returned:
  assumes "flush_wait parId sz st env tr = Returned (st', sz', tr', env')"
  shows "\<exists>k. parId < length (m_states st')
           \<and> ((tr' = tr @ replicate k (WaitWorker parId) @ [ResetOutputSize] \<and> sz' = 0
                \<and> is_done (m_states st' ! parId)
                \<and> (is_done (m_states st ! parId) \<or> 0 < k))
              \<or> (tr' = tr @ replicate k (WaitWorker parId) \<and> sz' = sz
                \<and> done_flag st' \<and> m_states st' ! parId = OUTPUTTING))"
  using assms
proof (induction env arbitrary: st tr)
  case Nil
  then show ?case
    by (cases "m_states st ! parId") (auto split: if_splits intro: exI [of _ 0])
next
  case (Cons e env)
  show ?case
  proof (cases "parId < length (m_states st) \<and> \<not> is_done (m_states st ! parId)
                \<and> \<not> done_flag st")
    case True
    with Cons.prems have
      "flush_wait parId sz (e st) env (tr @ [WaitWorker parId]) = Returned (st', sz', tr', env')"
      by simp
    from Cons.IH [OF this] obtain k where
      k: "parId < length (m_states st')"
         "(tr' = (tr @ [WaitWorker parId]) @ replicate k (WaitWorker parId) @ [ResetOutputSize]
             \<and> sz' = 0 \<and> is_done (m_states st' ! parId))
          \<or> (tr' = (tr @ [WaitWorker parId]) @ replicate k (WaitWorker parId) \<and> sz' = sz
             \<and> done_flag st' \<and> m_states st' ! parId = OUTPUTTING)"
      by blast
    have r: "(tr @ [WaitWorker parId]) @ replicate k (WaitWorker parId) @ rest
             = tr @ replicate (Suc k) (WaitWorker parId) @ rest" for rest
      by simp
    from k show ?thesis
      unfolding r [of "[ResetOutputSize]"] r [of "[]", simplified]
      by (intro exI [of _ "Suc k"]) auto
  next
    case False
    with Cons.prems show ?thesis
      by (cases "m_states st ! parId") (auto split: if_splits intro: exI [of _ 0])
  qed
qed

text \<open>
  C9. When \<^verbatim>\<open>flush_buffer_impl\<close> of worker \<open>parId\<close> returns from flushing a non-empty output
  buffer, it has set the worker's state to \<open>OUTPUTTING\<close>, then notified the producer, then
  waited on the worker's condition variable some number of times, and then either
  \<^item> reset the buffer size to zero, after at least one wait and with the worker's state
    being \<open>IDLE\<close> or \<open>PROCESSING\<close> at that moment, or
  \<^item> returned with the buffer size unchanged, the flag \<^verbatim>\<open>done\<close> being set and the state still
    \<open>OUTPUTTING\<close>.
  So the buffer size is not reset while the state is \<open>OUTPUTTING\<close>.
\<close>

theorem flush_buffer_impl_protocol:
  assumes "flush_buffer_impl parId m_outputSize st env = Returned (st', size', tr, env')"
      and "0 < m_outputSize"
  shows "\<exists>k. (tr = [SetState parId OUTPUTTING, NotifyProducer]
                   @ replicate k (WaitWorker parId) @ [ResetOutputSize]
               \<and> 0 < k \<and> size' = 0 \<and> m_states st' ! parId \<in> {IDLE, PROCESSING})
            \<or> (tr = [SetState parId OUTPUTTING, NotifyProducer] @ replicate k (WaitWorker parId)
               \<and> size' = m_outputSize \<and> done_flag st' \<and> m_states st' ! parId = OUTPUTTING)"
proof -
  let ?st1 = "st\<lparr> m_states := (m_states st)[parId := OUTPUTTING] \<rparr>"
  from assms have lt: "parId < length (m_states st)"
    and w: "flush_wait parId m_outputSize ?st1 env [SetState parId OUTPUTTING, NotifyProducer]
            = Returned (st', size', tr, env')"
    by (auto simp: flush_buffer_impl_def split: if_splits)
  from lt have "\<not> is_done (m_states ?st1 ! parId)" by simp
  with flush_wait_Returned [OF w] obtain k where
    "(tr = [SetState parId OUTPUTTING, NotifyProducer]
            @ replicate k (WaitWorker parId) @ [ResetOutputSize]
        \<and> size' = 0 \<and> is_done (m_states st' ! parId) \<and> 0 < k)
     \<or> (tr = [SetState parId OUTPUTTING, NotifyProducer] @ replicate k (WaitWorker parId)
        \<and> size' = m_outputSize \<and> done_flag st' \<and> m_states st' ! parId = OUTPUTTING)"
    by blast
  moreover have "is_done x \<longleftrightarrow> x \<in> {IDLE, PROCESSING}" for x
    by (cases x) simp_all
  ultimately show ?thesis by blast
qed

theorem flush_buffer_impl_protocol_witness:
  "flush_buffer_impl 0 3 example_shared [example_spurious_wakeup, example_output_taken]
     = Returned (example_shared\<lparr> m_states := [IDLE, IDLE] \<rparr>, 0,
                 [SetState 0 OUTPUTTING, NotifyProducer, WaitWorker 0, WaitWorker 0,
                  ResetOutputSize], [])
   \<and> (0::nat) < 3
   \<and> m_states (example_shared\<lparr> m_states := [IDLE, IDLE] \<rparr>) ! 0 \<in> {IDLE, PROCESSING}"
proof -
  have r: "flush_buffer_impl 0 3 example_shared [example_spurious_wakeup, example_output_taken]
     = Returned (example_shared\<lparr> m_states := [IDLE, IDLE] \<rparr>, 0,
                 [SetState 0 OUTPUTTING, NotifyProducer, WaitWorker 0, WaitWorker 0,
                  ResetOutputSize], [])"
    by (simp add: flush_buffer_impl_def example_shared_def example_spurious_wakeup_def
          example_output_taken_def)
  have "m_states (example_shared\<lparr> m_states := [IDLE, IDLE] \<rparr>) ! 0 \<in> {IDLE, PROCESSING}"
    using flush_buffer_impl_protocol [OF r] by auto
  with r show ?thesis by simp
qed

subsection \<open>The producer\<close>

lemma keeps_refl: "keeps st pr tr env st pr tr env"
  by (simp add: keeps_def)

lemma keeps_step:
  assumes "keeps st1 pr1 (tr @ evs) env1 st' pr' tr' env'"
      and "m_remainingItems pr1 = m_remainingItems pr" and "SetDone \<notin> set evs"
      and "set env1 \<subseteq> set env"
      and "(\<forall>e\<in>set env. \<forall>s. opts (e s) = opts s) \<longrightarrow> opts st1 = opts st"
  shows "keeps st pr tr env st' pr' tr' env'"
proof -
  from assms(1) obtain more where "tr' = (tr @ evs) @ more" "SetDone \<notin> set more"
    by (auto simp: keeps_def)
  with assms(3) have "tr' = tr @ (evs @ more) \<and> SetDone \<notin> set (evs @ more)"
    by simp
  then have "\<exists>more. tr' = tr @ more \<and> SetDone \<notin> set more"
    by blast
  with assms show ?thesis
    by (auto simp: keeps_def)
qed

lemma send_loop_keeps:
  "send_loop st pr env tr = Returned (st', pr', tr', env') \<Longrightarrow> keeps st pr tr env st' pr' tr' env'"
proof (induction st pr env tr rule: send_loop.induct)
  case (1 st pr env tr)
  show ?case
  proof (cases "written pr > 0")
    case False
    with "1.prems" show ?thesis
      by (subst (asm) send_loop.simps) (simp add: keeps_refl)
  next
    case w: True
    show ?thesis
    proof (cases "has_ready_pipe st")
      case None
      show ?thesis
      proof (cases env)
        case Nil
        with w None "1.prems" show ?thesis
          by (subst (asm) send_loop.simps) simp
      next
        case (Cons e env1)
        with w None "1.prems" have
          "send_loop (e st) pr env1 (tr @ [WaitProducer]) = Returned (st', pr', tr', env')"
          by (subst (asm) send_loop.simps) simp
        from "1.IH"(1) [OF w None Cons this] show ?thesis
          by (rule keeps_step) (auto simp: Cons)
      qed
    next
      case (Some i)
      show ?thesis
      proof (cases "i \<ge> length (m_states st)")
        case True
        with w Some "1.prems" show ?thesis
          by (subst (asm) send_loop.simps) simp
      next
        case i: False
        show ?thesis
        proof (cases "m_states st ! i")
          case IDLE
          show ?thesis
          proof (cases "written pr > bufSize (opts st)")
            case True
            with w Some i IDLE "1.prems" show ?thesis
              by (subst (asm) send_loop.simps) simp
          next
            case False
            with w Some i IDLE "1.prems" have
              "send_loop (st\<lparr> m_inputBuffers :=
                                   (m_inputBuffers st)[i := take (written pr) (inputBuffer pr)],
                                 m_states := (m_states st)[i := PROCESSING] \<rparr>)
                           (pr\<lparr> readyIdx := i, written := 0 \<rparr>) env
                           (tr @ [SendInput i, SetState i PROCESSING, NotifyWorker i])
               = Returned (st', pr', tr', env')"
              by (subst (asm) send_loop.simps) simp
            from "1.IH"(2) [OF w Some i IDLE False this] show ?thesis
              by (rule keeps_step) auto
          qed
        next
          case PROCESSING
          with w Some i "1.prems" show ?thesis
            by (subst (asm) send_loop.simps) simp
        next
          case OUTPUTTING
          with w Some i "1.prems" have
            "send_loop (st\<lparr> m_states := (m_states st)[i := IDLE] \<rparr>)
                      (pr\<lparr> readyIdx := i,
                           consumed := consumed pr @ m_outputBuffers st ! i \<rparr>) env
                      (tr @ [Consume i, SetState i IDLE, NotifyWorker i])
             = Returned (st', pr', tr', env')"
            by (subst (asm) send_loop.simps) simp
          from "1.IH"(3) [OF w Some i OUTPUTTING this] show ?thesis
            by (rule keeps_step) auto
        qed
      qed
    qed
  qed
qed

lemma drain_loop_keeps:
  "drain_loop st pr env tr = Returned (st', pr', tr', env') \<Longrightarrow> keeps st pr tr env st' pr' tr' env'"
proof (induction st pr env tr rule: drain_loop.induct)
  case (1 st pr env tr)
  show ?case
  proof (cases "has_outputting_pipe st")
    case (Some i)
    show ?thesis
    proof (cases "i \<ge> length (m_states st)")
      case True
      with Some "1.prems" show ?thesis
        by (subst (asm) drain_loop.simps) simp
    next
      case False
      with Some "1.prems" have
        "drain_loop (st\<lparr> m_states := (m_states st)[i := IDLE] \<rparr>)
                 (pr\<lparr> readyIdx := i, consumed := consumed pr @ m_outputBuffers st ! i \<rparr>) env
                 (tr @ [Consume i, SetState i IDLE])
         = Returned (st', pr', tr', env')"
        by (subst (asm) drain_loop.simps) simp
      from "1.IH"(2) [OF Some False this] show ?thesis
        by (rule keeps_step) auto
    qed
  next
    case None
    show ?thesis
    proof (cases "has_processing_pipe st")
      case False
      with None "1.prems" show ?thesis
        by (subst (asm) drain_loop.simps) (simp add: keeps_refl)
    next
      case True
      show ?thesis
      proof (cases env)
        case Nil
        with None True "1.prems" show ?thesis
          by (subst (asm) drain_loop.simps) simp
      next
        case (Cons e env1)
        with None True "1.prems" have
          "drain_loop (e st) pr env1 (tr @ [WaitProducer]) = Returned (st', pr', tr', env')"
          by (subst (asm) drain_loop.simps) simp
        from "1.IH"(1) [OF None _ Cons this] True
        have "keeps (e st) pr (tr @ [WaitProducer]) env1 st' pr' tr' env'"
          by simp
        then show ?thesis
          by (rule keeps_step) (auto simp: Cons)
      qed
    qed
  qed
qed

lemma join_loop_Returned:
  "join_loop st env tr = Returned (st', tr', env') \<Longrightarrow>
     runningWorkers st' = 0 \<and> (\<exists>k. tr' = tr @ replicate k WaitProducer)"
proof (induction env arbitrary: st tr)
  case Nil
  then show ?case by (auto split: if_splits)
next
  case (Cons e env)
  show ?case
  proof (cases "runningWorkers st > 0")
    case False
    with Cons.prems show ?thesis by auto
  next
    case True
    with Cons.prems have "join_loop (e st) env (tr @ [WaitProducer]) = Returned (st', tr', env')"
      by simp
    from Cons.IH [OF this] obtain k where
      "runningWorkers st' = 0" "tr' = (tr @ [WaitProducer]) @ replicate k WaitProducer"
      by blast
    then have "runningWorkers st' = 0 \<and> tr' = tr @ replicate (Suc k) WaitProducer"
      by simp
    then show ?thesis by blast
  qed
qed


lemma send_loop_written:
  "send_loop st pr env tr = Returned (st', pr', tr', env') \<Longrightarrow> written pr' = 0"
proof (induction st pr env tr rule: send_loop.induct)
  case (1 st pr env tr)
  show ?case
  proof (cases "written pr > 0")
    case False
    with "1.prems" show ?thesis
      by (subst (asm) send_loop.simps) auto
  next
    case w: True
    show ?thesis
    proof (cases "has_ready_pipe st")
      case None
      show ?thesis
      proof (cases env)
        case Nil
        with w None "1.prems" show ?thesis
          by (subst (asm) send_loop.simps) simp
      next
        case (Cons e env1)
        with w None "1.prems" have
          "send_loop (e st) pr env1 (tr @ [WaitProducer]) = Returned (st', pr', tr', env')"
          by (subst (asm) send_loop.simps) simp
        from "1.IH"(1) [OF w None Cons this] show ?thesis .
      qed
    next
      case (Some i)
      show ?thesis
      proof (cases "i \<ge> length (m_states st)")
        case True
        with w Some "1.prems" show ?thesis
          by (subst (asm) send_loop.simps) simp
      next
        case i: False
        show ?thesis
        proof (cases "m_states st ! i")
          case IDLE
          show ?thesis
          proof (cases "written pr > bufSize (opts st)")
            case True
            with w Some i IDLE "1.prems" show ?thesis
              by (subst (asm) send_loop.simps) simp
          next
            case False
            with w Some i IDLE "1.prems" have
              "send_loop (st\<lparr> m_inputBuffers :=
                                   (m_inputBuffers st)[i := take (written pr) (inputBuffer pr)],
                                 m_states := (m_states st)[i := PROCESSING] \<rparr>)
                           (pr\<lparr> readyIdx := i, written := 0 \<rparr>) env
                           (tr @ [SendInput i, SetState i PROCESSING, NotifyWorker i])
               = Returned (st', pr', tr', env')"
              by (subst (asm) send_loop.simps) simp
            from "1.IH"(2) [OF w Some i IDLE False this] show ?thesis .
          qed
        next
          case PROCESSING
          with w Some i "1.prems" show ?thesis
            by (subst (asm) send_loop.simps) simp
        next
          case OUTPUTTING
          with w Some i "1.prems" have
            "send_loop (st\<lparr> m_states := (m_states st)[i := IDLE] \<rparr>)
                      (pr\<lparr> readyIdx := i,
                           consumed := consumed pr @ m_outputBuffers st ! i \<rparr>) env
                      (tr @ [Consume i, SetState i IDLE, NotifyWorker i])
             = Returned (st', pr', tr', env')"
            by (subst (asm) send_loop.simps) simp
          from "1.IH"(3) [OF w Some i OUTPUTTING this] show ?thesis .
        qed
      qed
    qed
  qed
qed

lemma all_idle:
  assumes "has_outputting_pipe st = None" "\<not> has_processing_pipe st" "i < numJobs (opts st)"
  shows "i < length (m_states st) \<and> m_states st ! i = IDLE"
proof -
  from assms(1,3) have o: "i < length (m_states st)" "m_states st ! i \<noteq> OUTPUTTING"
    by (auto simp: has_outputting_pipe_def find_None_iff)
  from assms(2,3) have "m_states st ! i \<noteq> PROCESSING"
    by (auto simp: has_processing_pipe_def list_ex_iff)
  with o show ?thesis
    by (cases "m_states st ! i") simp_all
qed

lemma drain_loop_idle:
  "drain_loop st pr env tr = Returned (st', pr', tr', env') \<Longrightarrow>
     (\<forall>i<numJobs (opts st'). i < length (m_states st') \<and> m_states st' ! i = IDLE)
   \<and> (\<exists>drained. tr' = tr @ drained
          \<and> (\<forall>ev\<in>set drained. ev = WaitProducer \<or> (\<exists>i. ev = Consume i \<or> ev = SetState i IDLE)))"
proof (induction st pr env tr rule: drain_loop.induct)
  case (1 st pr env tr)
  let ?ok = "\<lambda>ev. ev = WaitProducer \<or> (\<exists>i. ev = Consume i \<or> ev = SetState i IDLE)"
  show ?case
  proof (cases "has_outputting_pipe st")
    case (Some i)
    show ?thesis
    proof (cases "i \<ge> length (m_states st)")
      case True
      with Some "1.prems" show ?thesis
        by (subst (asm) drain_loop.simps) simp
    next
      case False
      with Some "1.prems" have
        "drain_loop (st\<lparr> m_states := (m_states st)[i := IDLE] \<rparr>)
                 (pr\<lparr> readyIdx := i, consumed := consumed pr @ m_outputBuffers st ! i \<rparr>) env
                 (tr @ [Consume i, SetState i IDLE])
         = Returned (st', pr', tr', env')"
        by (subst (asm) drain_loop.simps) simp
      from "1.IH"(2) [OF Some False this] obtain drained where
        idle: "\<forall>i<numJobs (opts st'). i < length (m_states st') \<and> m_states st' ! i = IDLE"
        and d: "tr' = (tr @ [Consume i, SetState i IDLE]) @ drained" "\<forall>ev\<in>set drained. ?ok ev"
        by blast
      from d have "tr' = tr @ ([Consume i, SetState i IDLE] @ drained)
                   \<and> (\<forall>ev\<in>set ([Consume i, SetState i IDLE] @ drained). ?ok ev)"
        by auto
      with idle show ?thesis by blast
    qed
  next
    case None
    show ?thesis
    proof (cases "has_processing_pipe st")
      case False
      with None "1.prems" have "st' = st" "tr' = tr"
        by (subst (asm) drain_loop.simps, simp)+
      with all_idle [OF None False] show ?thesis
        by simp
    next
      case True
      show ?thesis
      proof (cases env)
        case Nil
        with None True "1.prems" show ?thesis
          by (subst (asm) drain_loop.simps) simp
      next
        case (Cons e env1)
        with None True "1.prems" have
          "drain_loop (e st) pr env1 (tr @ [WaitProducer]) = Returned (st', pr', tr', env')"
          by (subst (asm) drain_loop.simps) simp
        from "1.IH"(1) [OF None _ Cons this] True obtain drained where
          idle: "\<forall>i<numJobs (opts st'). i < length (m_states st') \<and> m_states st' ! i = IDLE"
          and d: "tr' = (tr @ [WaitProducer]) @ drained" "\<forall>ev\<in>set drained. ?ok ev"
          by auto
        from d have "tr' = tr @ ([WaitProducer] @ drained)
                     \<and> (\<forall>ev\<in>set ([WaitProducer] @ drained). ?ok ev)"
          by auto
        with idle show ?thesis by blast
      qed
    qed
  qed
qed

text \<open>What a returning \<^verbatim>\<open>push\<close> has done.\<close>

lemma producer_push_Returned:
  assumes "producer_push item st pr env = Returned (st', pr', tr, env')"
  defines "pr1 \<equiv> pr\<lparr> inputBuffer := (inputBuffer pr)[written pr := item],
                       written := written pr + 1,
                       m_remainingItems := m_remainingItems pr - 1 \<rparr>"
  shows "0 < m_remainingItems pr"
    and "m_remainingItems pr' = m_remainingItems pr - 1"
    and "1 < m_remainingItems pr \<Longrightarrow> SetDone \<notin> set tr"
    and "m_remainingItems pr = 1 \<Longrightarrow>
           \<exists>st2 pr2 tr2 env2 st3 tr3 env3.
              send_loop st pr1 env [] = Returned (st2, pr2, tr2, env2)
            \<and> drain_loop st2 pr2 env2 tr2 = Returned (st3, pr', tr3, env3)
            \<and> join_loop (st3\<lparr> done_flag := True \<rparr>) env3
                  (tr3 @ [SetDone] @ map NotifyWorker [0..<numJobs (opts st3)])
                = Returned (st', tr, env')"
proof -
  from assms(1) show pos: "0 < m_remainingItems pr"
    by (auto simp: producer_push_def split: if_splits)
  have cases: "(tr = [] \<and> pr' = pr1 \<and> 0 < m_remainingItems pr1)
     \<or> (\<exists>st2 env2. send_loop st pr1 env [] = Returned (st2, pr', tr, env2)
            \<and> 0 < m_remainingItems pr')
     \<or> (\<exists>st2 pr2 tr2 env2 st3 tr3 env3.
            send_loop st pr1 env [] = Returned (st2, pr2, tr2, env2)
          \<and> m_remainingItems pr2 = 0
          \<and> drain_loop st2 pr2 env2 tr2 = Returned (st3, pr', tr3, env3)
          \<and> join_loop (st3\<lparr> done_flag := True \<rparr>) env3
                (tr3 @ [SetDone] @ map NotifyWorker [0..<numJobs (opts st3)])
              = Returned (st', tr, env'))"
    using assms(1) unfolding producer_push_def Let_def pr1_def
    by (auto split: if_splits outcome.splits prod.splits)
  show "m_remainingItems pr' = m_remainingItems pr - 1"
    using cases
    by (auto dest!: send_loop_keeps drain_loop_keeps simp: keeps_def pr1_def)
  show "SetDone \<notin> set tr" if "1 < m_remainingItems pr"
    using cases that
    by (auto dest!: send_loop_keeps drain_loop_keeps simp: keeps_def pr1_def)
  show "\<exists>st2 pr2 tr2 env2 st3 tr3 env3.
              send_loop st pr1 env [] = Returned (st2, pr2, tr2, env2)
            \<and> drain_loop st2 pr2 env2 tr2 = Returned (st3, pr', tr3, env3)
            \<and> join_loop (st3\<lparr> done_flag := True \<rparr>) env3
                  (tr3 @ [SetDone] @ map NotifyWorker [0..<numJobs (opts st3)])
                = Returned (st', tr, env')"
    if "m_remainingItems pr = 1"
    using cases that
    by (auto dest: send_loop_keeps simp: keeps_def pr1_def)
qed

lemma producer_push_last_SetDone:
  assumes "producer_push item st pr env = Returned (st', pr', tr, env')"
      and "m_remainingItems pr = 1"
  shows "SetDone \<in> set tr"
proof -
  from producer_push_Returned(4) [OF assms] obtain st3 tr3 env3 where
    "join_loop (st3\<lparr> done_flag := True \<rparr>) env3
        (tr3 @ [SetDone] @ map NotifyWorker [0..<numJobs (opts st3)])
      = Returned (st', tr, env')"
    by blast
  from join_loop_Returned [OF this] show ?thesis
    by auto
qed

lemma producer_push_list_Returned:
  "producer_push_list xs st pr env tr = Returned (st', pr', tr', env') \<Longrightarrow>
     length xs \<le> m_remainingItems pr
   \<and> m_remainingItems pr' = m_remainingItems pr - length xs
   \<and> (\<exists>pushed. tr' = tr @ pushed
          \<and> (SetDone \<in> set pushed \<longleftrightarrow> xs \<noteq> [] \<and> length xs = m_remainingItems pr))"
proof (induction xs arbitrary: st pr env tr)
  case Nil
  then show ?case by simp
next
  case (Cons x xs)
  from Cons.prems obtain st1 pr1 tr1 env1 where
    p1: "producer_push x st pr env = Returned (st1, pr1, tr1, env1)"
    and rest: "producer_push_list xs st1 pr1 env1 (tr @ tr1) = Returned (st', pr', tr', env')"
    by (auto split: outcome.splits)
  note push = producer_push_Returned [OF p1]
  from Cons.IH [OF rest] obtain pushed where
    len: "length xs \<le> m_remainingItems pr1"
    and rem: "m_remainingItems pr' = m_remainingItems pr1 - length xs"
    and tr': "tr' = (tr @ tr1) @ pushed"
    and sd: "SetDone \<in> set pushed \<longleftrightarrow> xs \<noteq> [] \<and> length xs = m_remainingItems pr1"
    by blast
  have "SetDone \<in> set (tr1 @ pushed) \<longleftrightarrow> length (x # xs) = m_remainingItems pr"
  proof (cases "m_remainingItems pr = 1")
    case True
    with p1 have "SetDone \<in> set tr1" by (rule producer_push_last_SetDone)
    moreover from True len push(2) have "xs = []" by simp
    ultimately show ?thesis using True by simp
  next
    case False
    with push(1) have "1 < m_remainingItems pr" by simp
    with push(3) have "SetDone \<notin> set tr1" by simp
    with sd push(1,2) False show ?thesis by auto
  qed
  with len rem tr' push(1,2) show ?case
    by (intro conjI exI [of _ "tr1 @ pushed"]) simp_all
qed

text \<open>
  C10. The producer needs the number of items in advance, and the push of the last announced
  item shuts the segment down:
  \<^item> \<^verbatim>\<open>begin()\<close> fails when the datum "items" cannot be fetched, and otherwise stores the
    announced number \<open>n\<close> in \<^verbatim>\<open>m_remainingItems\<close>;
  \<^item> when the pushes of a session after \<^verbatim>\<open>begin()\<close> have all returned, they are at most \<open>n\<close>,
    \<^verbatim>\<open>m_remainingItems\<close> is \<open>n\<close> less their number, the flag \<^verbatim>\<open>done\<close> has been set exactly
    when the \<open>n\<close>-th item has been pushed, and after the \<open>n\<close>-th item every further \<^verbatim>\<open>push\<close>
    fails;
  \<^item> \<^verbatim>\<open>push\<close> fails when no announced item remains;
  \<^item> a \<^verbatim>\<open>push\<close> that returns has taken one of the remaining items; when more than one
    remained it has not set the flag \<^verbatim>\<open>done\<close>; when exactly one remained it has handed the
    staged items to a worker, then drained: taken the output of outputting workers and waited
    on the producer's condition variable until every worker was idle; then it has set the
    flag, notified the workers \<open>0, \<dots>, numJobs - 1\<close>, waited on the producer's condition
    variable, and it returns with \<^verbatim>\<open>runningWorkers\<close> equal to 0;
  \<^item> \<^verbatim>\<open>end()\<close> only resizes the input buffer to 0.
\<close>

theorem producer_requires_announced_items:
  "producer_begin None filler options pr
     = Inl (RuntimeError ''Parallel processing requires 'items' to be known'')
   \<and> producer_begin (Some n) filler options pr
     = Inr (pr\<lparr> inputBuffer := replicate (bufSize options) filler, m_remainingItems := n \<rparr>)
   \<and> producer_session None filler xs st pr env
     = Failed (RuntimeError ''Parallel processing requires 'items' to be known'')
   \<and> (\<forall>st' pr' tr env'.
        producer_session (Some n) filler xs st pr env = Returned (st', pr', tr, env') \<longrightarrow>
          length xs \<le> n
        \<and> m_remainingItems pr' = n - length xs
        \<and> (SetDone \<in> set tr \<longleftrightarrow> xs \<noteq> [] \<and> length xs = n)
        \<and> (length xs = n \<longrightarrow>
             producer_push item st' pr' env_after
               = Failed (RuntimeError ''Got more items than expected'')))
   \<and> (m_remainingItems pr = 0 \<longrightarrow>
        producer_push item st pr env = Failed (RuntimeError ''Got more items than expected''))
   \<and> (\<forall>st' pr' tr env'.
        producer_push item st pr env = Returned (st', pr', tr, env') \<longrightarrow>
          0 < m_remainingItems pr
        \<and> m_remainingItems pr' = m_remainingItems pr - 1
        \<and> (1 < m_remainingItems pr \<longrightarrow> SetDone \<notin> set tr)
        \<and> (m_remainingItems pr = 1 \<longrightarrow>
             runningWorkers st' = 0
           \<and> (\<exists>st2 pr2 tr2 env2 st3 tr3 env3 drained k.
                 send_loop st
                   (pr\<lparr> inputBuffer := (inputBuffer pr)[written pr := item],
                        written := written pr + 1,
                        m_remainingItems := m_remainingItems pr - 1 \<rparr>) env []
                   = Returned (st2, pr2, tr2, env2)
               \<and> written pr2 = 0
               \<and> drain_loop st2 pr2 env2 tr2 = Returned (st3, pr', tr3, env3)
               \<and> (\<forall>i<numJobs (opts st3). i < length (m_states st3) \<and> m_states st3 ! i = IDLE)
               \<and> tr3 = tr2 @ drained
               \<and> (\<forall>ev\<in>set drained.
                      ev = WaitProducer \<or> (\<exists>i. ev = Consume i \<or> ev = SetState i IDLE))
               \<and> join_loop (st3\<lparr> done_flag := True \<rparr>) env3
                     (tr3 @ [SetDone] @ map NotifyWorker [0..<numJobs (opts st3)])
                   = Returned (st', tr, env')
               \<and> tr = tr3 @ [SetDone] @ map NotifyWorker [0..<numJobs (opts st3)]
                        @ replicate k WaitProducer
               \<and> SetDone \<notin> set tr3
               \<and> ((\<forall>e\<in>set env. \<forall>s. opts (e s) = opts s) \<longrightarrow> opts st3 = opts st))))
   \<and> producer_end pr = pr\<lparr> inputBuffer := [] \<rparr>"
proof (intro conjI allI impI)
  show "producer_begin None filler options pr
     = Inl (RuntimeError ''Parallel processing requires 'items' to be known'')"
    by (simp add: producer_begin_def)
  show "producer_begin (Some n) filler options pr
     = Inr (pr\<lparr> inputBuffer := replicate (bufSize options) filler, m_remainingItems := n \<rparr>)"
    by (simp add: producer_begin_def)
  show "producer_session None filler xs st pr env
     = Failed (RuntimeError ''Parallel processing requires 'items' to be known'')"
    by (simp add: producer_session_def producer_begin_def)
  show "producer_end pr = pr\<lparr> inputBuffer := [] \<rparr>"
    by (simp add: producer_end_def)
next
  assume "m_remainingItems pr = 0"
  then show "producer_push item st pr env = Failed (RuntimeError ''Got more items than expected'')"
    by (simp add: producer_push_def)
next
  fix st' pr' tr env'
  assume "producer_session (Some n) filler xs st pr env = Returned (st', pr', tr, env')"
  then have "producer_push_list xs st
               (pr\<lparr> inputBuffer := replicate (bufSize (opts st)) filler, m_remainingItems := n \<rparr>)
               env [] = Returned (st', pr', tr, env')"
    by (simp add: producer_session_def producer_begin_def)
  from producer_push_list_Returned [OF this]
  show len: "length xs \<le> n" and rem: "m_remainingItems pr' = n - length xs"
    and "SetDone \<in> set tr \<longleftrightarrow> xs \<noteq> [] \<and> length xs = n"
    by auto
  assume "length xs = n"
  with rem show "producer_push item st' pr' env_after
                   = Failed (RuntimeError ''Got more items than expected'')"
    by (simp add: producer_push_def)
next
  fix st' pr' tr env'
  assume r: "producer_push item st pr env = Returned (st', pr', tr, env')"
  let ?pr1 = "pr\<lparr> inputBuffer := (inputBuffer pr)[written pr := item],
                       written := written pr + 1,
                       m_remainingItems := m_remainingItems pr - 1 \<rparr>"
  note push = producer_push_Returned [OF r]
  from push(1) show "0 < m_remainingItems pr" .
  from push(2) show "m_remainingItems pr' = m_remainingItems pr - 1" .
  show "SetDone \<notin> set tr" if "1 < m_remainingItems pr"
    using push(3) that .
  assume one: "m_remainingItems pr = 1"
  from push(4) [OF one] obtain st2 pr2 tr2 env2 st3 tr3 env3 where
    s: "send_loop st ?pr1 env [] = Returned (st2, pr2, tr2, env2)"
    and d: "drain_loop st2 pr2 env2 tr2 = Returned (st3, pr', tr3, env3)"
    and j: "join_loop (st3\<lparr> done_flag := True \<rparr>) env3
                (tr3 @ [SetDone] @ map NotifyWorker [0..<numJobs (opts st3)])
              = Returned (st', tr, env')"
    by blast
  from join_loop_Returned [OF j] obtain k where
    k: "runningWorkers st' = 0"
       "tr = tr3 @ [SetDone] @ map NotifyWorker [0..<numJobs (opts st3)] @ replicate k WaitProducer"
    by auto
  from k(1) show "runningWorkers st' = 0" .
  from send_loop_keeps [OF s] drain_loop_keeps [OF d]
  have nd: "SetDone \<notin> set tr3"
    and o: "(\<forall>e\<in>set env. \<forall>s. opts (e s) = opts s) \<longrightarrow> opts st3 = opts st"
    by (auto simp: keeps_def)
  from drain_loop_idle [OF d] obtain drained where
    idle: "\<forall>i<numJobs (opts st3). i < length (m_states st3) \<and> m_states st3 ! i = IDLE"
    and dr: "tr3 = tr2 @ drained"
      "\<forall>ev\<in>set drained. ev = WaitProducer \<or> (\<exists>i. ev = Consume i \<or> ev = SetState i IDLE)"
    by blast
  from s send_loop_written [OF s] d idle dr j k(2) nd o
  show "\<exists>st2 pr2 tr2 env2 st3 tr3 env3 drained k.
                 send_loop st ?pr1 env [] = Returned (st2, pr2, tr2, env2)
               \<and> written pr2 = 0
               \<and> drain_loop st2 pr2 env2 tr2 = Returned (st3, pr', tr3, env3)
               \<and> (\<forall>i<numJobs (opts st3). i < length (m_states st3) \<and> m_states st3 ! i = IDLE)
               \<and> tr3 = tr2 @ drained
               \<and> (\<forall>ev\<in>set drained.
                      ev = WaitProducer \<or> (\<exists>i. ev = Consume i \<or> ev = SetState i IDLE))
               \<and> join_loop (st3\<lparr> done_flag := True \<rparr>) env3
                     (tr3 @ [SetDone] @ map NotifyWorker [0..<numJobs (opts st3)])
                   = Returned (st', tr, env')
               \<and> tr = tr3 @ [SetDone] @ map NotifyWorker [0..<numJobs (opts st3)]
                        @ replicate k WaitProducer
               \<and> SetDone \<notin> set tr3
               \<and> ((\<forall>e\<in>set env. \<forall>s. opts (e s) = opts s) \<longrightarrow> opts st3 = opts st)"
    by blast
qed

theorem producer_requires_announced_items_witness:
  "producer_session (Some 1) 0 [5] example_idle_shared example_producer
     [example_worker_outputs, example_workers_leave]
   = Returned
       (\<lparr> opts = \<lparr> numJobs = 2, bufSize = 4 \<rparr>, done_flag = True, runningWorkers = 0,
          m_states = [IDLE, IDLE], m_inputBuffers = [[5], []],
          m_outputBuffers = [[70], []] \<rparr>,
        \<lparr> inputBuffer = [5, 0, 0, 0], written = 0, readyIdx = 0, m_remainingItems = 0,
          consumed = [70] \<rparr>,
        [SendInput 0, SetState 0 PROCESSING, NotifyWorker 0, WaitProducer, Consume 0,
         SetState 0 IDLE, SetDone, NotifyWorker 0, NotifyWorker 1, WaitProducer],
        [])
   \<and> producer_push 6
       \<lparr> opts = \<lparr> numJobs = 2, bufSize = 4 \<rparr>, done_flag = True, runningWorkers = 0,
         m_states = [IDLE, IDLE], m_inputBuffers = [[5], []],
         m_outputBuffers = [[70::nat], []] \<rparr>
       \<lparr> inputBuffer = [5, 0, 0, 0::nat], written = 0, readyIdx = 0, m_remainingItems = 0,
         consumed = [70::nat] \<rparr>
       []
     = Failed (RuntimeError ''Got more items than expected'')"
proof -
  let ?st' = "\<lparr> opts = \<lparr> numJobs = 2, bufSize = 4 \<rparr>, done_flag = True, runningWorkers = 0,
          m_states = [IDLE, IDLE], m_inputBuffers = [[5::nat], []],
          m_outputBuffers = [[70::nat], []] \<rparr>"
  let ?pr' = "\<lparr> inputBuffer = [5, 0, 0, 0::nat], written = 0, readyIdx = 0,
                m_remainingItems = 0, consumed = [70::nat] \<rparr>"
  let ?tr = "[SendInput 0, SetState 0 PROCESSING, NotifyWorker 0, WaitProducer, Consume 0,
         SetState 0 IDLE, SetDone, NotifyWorker 0, NotifyWorker 1, WaitProducer]"
  have buf: "replicate 4 (0::nat) = [0, 0, 0, 0]"
    by (simp add: eval_nat_numeral)
  have r: "producer_session (Some 1) 0 [5] example_idle_shared example_producer
     [example_worker_outputs, example_workers_leave]
   = Returned (?st', ?pr', ?tr, [])"
    by (simp add: producer_session_def producer_begin_def producer_push_def send_loop.simps
          drain_loop.simps has_ready_pipe_def
          has_outputting_pipe_def has_processing_pipe_def example_idle_shared_def
          example_producer_def example_worker_outputs_def example_workers_leave_def
          upt_rec Let_def buf)
  from producer_requires_announced_items
         [where pr = example_producer and n = 1 and filler = 0 and xs = "[5]"
            and st = example_idle_shared
            and env = "[example_worker_outputs, example_workers_leave]"
            and item = 6 and env_after = "[]",
          THEN conjunct2, THEN conjunct2, THEN conjunct2, THEN conjunct1, rule_format, OF r]
  have "producer_push 6 ?st' ?pr' [] = Failed (RuntimeError ''Got more items than expected'')"
    by simp
  with r show ?thesis by (intro conjI)
qed

end
